theory Spec2Isabelle
  imports Complex_Main "HOL-Library.Multiset"
begin

section \<open>Shared Python and numpy primitives\<close>

text \<open>
  Embedding of \<^verbatim>\<open>spider/data_op.py\<close>. A numpy array is the list of its entries along
  axis 0 (a matrix is the list of its rows). Every place where the Python raises is a
  branch returning \<open>Inl\<close> of the exception.
\<close>

datatype py_error = IndexError | TypeError | AssertionError | ValueError

text \<open>
  Python's slice \<^verbatim>\<open>a[start:end]\<close> with integer bounds: a negative bound counts from the
  end, and both bounds are clamped to the length.
\<close>

definition slice_bound :: "nat \<Rightarrow> int \<Rightarrow> nat" where
  "slice_bound n i = (if i < 0 then nat (max 0 (int n + i)) else min n (nat i))"

definition py_slice :: "'a list \<Rightarrow> int \<Rightarrow> int \<Rightarrow> 'a list" where
  "py_slice a start end =
     (let s = slice_bound (length a) start; e = slice_bound (length a) end
      in take (e - s) (drop s a))"

text \<open>
  numpy's \<^verbatim>\<open>x[index]\<close> for an integer index array: the selected rows in the order of
  the index, IndexError when an index is out of bounds. The indices used by the loader
  come from \<^verbatim>\<open>np.arange\<close> and are never negative.
\<close>

definition take_rows :: "'a list \<Rightarrow> nat list \<Rightarrow> py_error + 'a list" where
  "take_rows x index =
     (if \<forall>i \<in> set index. i < length x then Inr (map (\<lambda>i. x ! i) index)
      else Inl IndexError)"

text \<open>Evaluating a list of fallible computations from left to right, as a comprehension does.\<close>

fun collect :: "('e + 'a) list \<Rightarrow> 'e + 'a list" where
  "collect [] = Inr []"
| "collect (r # rs) =
     (case r of Inl e \<Rightarrow> Inl e
      | Inr v \<Rightarrow> (case collect rs of Inl e \<Rightarrow> Inl e | Inr vs \<Rightarrow> Inr (v # vs)))"

section \<open>The DataLoader\<close>

text \<open>
  The fields of the class. \<open>dl_xs\<close> is the tuple of input arrays, \<open>dl_y\<close> the label
  array (\<open>None\<close> when the caller gave none), \<open>dl_perm\<close> the index permutation
  \<^verbatim>\<open>_perm\<close>, \<open>index_in_epoch\<close> the field \<^verbatim>\<open>_index_in_epoch\<close>.
\<close>

record ('a, 'b) DataLoader =
  dl_xs :: "'a list list"
  dl_y :: "'b list option"
  epochs_completed :: nat
  index_in_epoch :: int
  sample_n :: nat
  dl_perm :: "nat list"
  for_eval :: bool

text \<open>
  \<^verbatim>\<open>__init__\<close>. The argument \<open>xs\<close> is the tuple of arrays (a list of arrays becomes the
  same tuple through \<^verbatim>\<open>tuple(xs)\<close>). \<^verbatim>\<open>self.xs[0]\<close> raises IndexError on an empty tuple,
  and the assertion checks that every array has the first array's length.
\<close>

definition init :: "'a list list \<Rightarrow> 'b list option \<Rightarrow> bool \<Rightarrow> py_error + ('a, 'b) DataLoader" where
  "init xs y for_eval_flag =
     (case xs of
        [] \<Rightarrow> Inl IndexError
      | x0 # _ \<Rightarrow>
          if \<forall>x \<in> set xs. length x = length x0
          then Inr \<lparr>dl_xs = xs, dl_y = y, epochs_completed = 0, index_in_epoch = 0,
                    sample_n = length x0, dl_perm = [0..<length x0],
                    for_eval = for_eval_flag\<rparr>
          else Inl AssertionError)"

text \<open>
  \<^verbatim>\<open>read_into_memory\<close>: the labels are read first (\<^verbatim>\<open>self.y[index]\<close> raises TypeError
  when \<^verbatim>\<open>y\<close> is None), then every input array.
\<close>

definition read_into_memory ::
  "('a, 'b) DataLoader \<Rightarrow> nat list \<Rightarrow> py_error + ('a list list \<times> 'b list option)" where
  "read_into_memory ld index =
     (case (if for_eval ld then Inr None
            else (case dl_y ld of
                    None \<Rightarrow> Inl TypeError
                  | Some yv \<Rightarrow> (case take_rows yv index of
                                 Inl e \<Rightarrow> Inl e | Inr v \<Rightarrow> Inr (Some v)))) of
        Inl e \<Rightarrow> Inl e
      | Inr batch_y \<Rightarrow>
          (case collect (map (\<lambda>x. take_rows x index) (dl_xs ld)) of
             Inl e \<Rightarrow> Inl e
           | Inr batch_x \<Rightarrow> Inr (batch_x, batch_y)))"

text \<open>\<^verbatim>\<open>_multi_concatenate\<close> on a pair of tuples: the arrays are concatenated pairwise.\<close>

definition multi_concatenate :: "'a list list \<Rightarrow> 'a list list \<Rightarrow> 'a list list" where
  "multi_concatenate t1 t2 = map (\<lambda>(a, b). a @ b) (zip t1 t2)"

text \<open>\<^verbatim>\<open>np.concatenate\<close> of the two label parts; None cannot be concatenated.\<close>

definition concat_labels :: "'b list option \<Rightarrow> 'b list option \<Rightarrow> py_error + 'b list option" where
  "concat_labels y1 y2 =
     (case (y1, y2) of
        (Some a, Some b) \<Rightarrow> Inr (Some (a @ b))
      | _ \<Rightarrow> Inl ValueError)"

definition eval_warning :: string where
  "eval_warning = ''Warning, evaluation dataset already finish one iteration.''"

text \<open>
  \<^verbatim>\<open>next_batch\<close>. \<^verbatim>\<open>np.random.shuffle\<close> permutes \<^verbatim>\<open>_perm\<close> in place from the global
  random state: the model takes the shuffle as a function \<open>shuf\<close> of a random state
  \<open>rng\<close> and threads that state, so the state read back tells how often the generator
  was used. The result is the printed lines, the batch, the updated loader and the
  random state.
\<close>

definition next_batch ::
  "('r \<Rightarrow> nat list \<Rightarrow> nat list \<times> 'r) \<Rightarrow> ('a, 'b) DataLoader \<Rightarrow> 'r \<Rightarrow> int \<Rightarrow> bool \<Rightarrow>
   py_error + (string list \<times> ('a list list \<times> 'b list option) \<times> ('a, 'b) DataLoader \<times> 'r)" where
  "next_batch shuf ld rng batch_size shuffle =
     (let printed = (if epochs_completed ld \<ge> 1 \<and> for_eval ld then [eval_warning] else []);
          start = index_in_epoch ld;
          (perm1, rng1) = (if epochs_completed ld = 0 \<and> start = 0 \<and> shuffle
                           then shuf rng (dl_perm ld) else (dl_perm ld, rng))
      in if start + batch_size \<ge> int (sample_n ld) then
           (let rest_sample_n = int (sample_n ld) - start in
            case read_into_memory ld (py_slice perm1 start (int (sample_n ld))) of
              Inl e \<Rightarrow> Inl e
            | Inr (x_rest_part, y_rest_part) \<Rightarrow>
                if for_eval ld then
                  Inr (printed, (x_rest_part, y_rest_part),
                       ld\<lparr>epochs_completed := epochs_completed ld + 1,
                          index_in_epoch := 0, dl_perm := perm1\<rparr>, rng1)
                else
                  (let (perm2, rng2) = (if shuffle then shuf rng1 perm1 else (perm1, rng1));
                       end = batch_size - rest_sample_n;
                       ld' = ld\<lparr>epochs_completed := epochs_completed ld + 1,
                                index_in_epoch := end, dl_perm := perm2\<rparr>
                   in case read_into_memory ld (py_slice perm2 0 end) of
                        Inl e \<Rightarrow> Inl e
                      | Inr (x_new_part, y_new_part) \<Rightarrow>
                          (case x_rest_part of
                             [] \<Rightarrow> Inl IndexError
                           | r0 # _ \<Rightarrow>
                               if length r0 = 0 then
                                 Inr (printed, (x_new_part, y_new_part), ld', rng2)
                               else
                                 (case x_new_part of
                                    [] \<Rightarrow> Inl IndexError
                                  | n0 # _ \<Rightarrow>
                                      if length n0 = 0 then
                                        Inr (printed, (x_rest_part, y_rest_part), ld', rng2)
                                      else
                                        (case concat_labels y_rest_part y_new_part of
                                           Inl e \<Rightarrow> Inl e
                                         | Inr y_batch \<Rightarrow>
                                             Inr (printed,
                                                  (multi_concatenate x_rest_part x_new_part, y_batch),
                                                  ld', rng2))))))
         else
           (let end = start + batch_size in
            case read_into_memory ld (py_slice perm1 start end) of
              Inl e \<Rightarrow> Inl e
            | Inr batch \<Rightarrow>
                Inr (printed, batch, ld\<lparr>index_in_epoch := end, dl_perm := perm1\<rparr>, rng1)))"

text \<open>
  A sequence of calls \<^verbatim>\<open>next_batch(batch_size, shuffle)\<close> on one loader, stopping at
  the first exception. It returns the loader and random state after the last call.
\<close>

fun run_calls ::
  "('r \<Rightarrow> nat list \<Rightarrow> nat list \<times> 'r) \<Rightarrow> ('a, 'b) DataLoader \<Rightarrow> 'r \<Rightarrow> (int \<times> bool) list \<Rightarrow>
   py_error + (('a, 'b) DataLoader \<times> 'r)" where
  "run_calls shuf ld rng [] = Inr (ld, rng)"
| "run_calls shuf ld rng (c # cs) =
     (case next_batch shuf ld rng (fst c) (snd c) of
        Inl e \<Rightarrow> Inl e
      | Inr (printed, batch, ld', rng') \<Rightarrow> run_calls shuf ld' rng' cs)"

text \<open>
  A sequence of calls as \<open>run_calls\<close>, keeping the batches the calls returned, in order.
\<close>

fun run_batches ::
  "('r \<Rightarrow> nat list \<Rightarrow> nat list \<times> 'r) \<Rightarrow> ('a, 'b) DataLoader \<Rightarrow> 'r \<Rightarrow> (int \<times> bool) list \<Rightarrow>
   py_error + (('a list list \<times> 'b list option) list \<times> ('a, 'b) DataLoader \<times> 'r)" where
  "run_batches shuf ld rng [] = Inr ([], ld, rng)"
| "run_batches shuf ld rng (c # cs) =
     (case next_batch shuf ld rng (fst c) (snd c) of
        Inl e \<Rightarrow> Inl e
      | Inr (printed, batch, ld', rng') \<Rightarrow>
          (case run_batches shuf ld' rng' cs of
             Inl e \<Rightarrow> Inl e
           | Inr (batches, ld'', rng'') \<Rightarrow> Inr (batch # batches, ld'', rng'')))"

text \<open>The number of samples a batch holds: \<^verbatim>\<open>x_batch[0].shape[0]\<close>.\<close>

definition batch_rows :: "'a list list \<times> 'b list option \<Rightarrow> nat" where
  "batch_rows batch = (case fst batch of [] \<Rightarrow> 0 | x0 # rest \<Rightarrow> length x0)"

text \<open>Every input array and the label array of a batch hold that many samples.\<close>

definition batch_uniform :: "'a list list \<times> 'b list option \<Rightarrow> bool" where
  "batch_uniform batch =
     (list_all (\<lambda>a. length a = batch_rows batch) (fst batch) \<and>
      (case snd batch of None \<Rightarrow> False | Some v \<Rightarrow> length v = batch_rows batch))"

section \<open>Specification predicates for the loader\<close>

text \<open>
  What \<^verbatim>\<open>np.random.shuffle\<close> guarantees: the result is a rearrangement of its argument.
\<close>

definition shuffle_ok :: "('r \<Rightarrow> nat list \<Rightarrow> nat list \<times> 'r) \<Rightarrow> bool" where
  "shuffle_ok shuf = (\<forall>rng p. mset (fst (shuf rng p)) = mset p)"

text \<open>
  A well-formed loader: a non-empty tuple of arrays of length \<open>sample_n\<close>, a permutation of
  the indices, and, unless the loader is for evaluation, labels of the same length.
\<close>

definition loader_wf :: "('a, 'b) DataLoader \<Rightarrow> bool" where
  "loader_wf ld =
     (dl_xs ld \<noteq> [] \<and> (\<forall>x \<in> set (dl_xs ld). length x = sample_n ld) \<and>
      mset (dl_perm ld) = mset [0..<sample_n ld] \<and>
      (for_eval ld \<or> (\<exists>yv. dl_y ld = Some yv \<and> length yv = sample_n ld)))"

text \<open>The loader's invariant in training mode.\<close>

definition train_inv :: "('a, 'b) DataLoader \<Rightarrow> bool" where
  "train_inv ld = (loader_wf ld \<and> \<not> for_eval ld \<and> 0 \<le> index_in_epoch ld \<and>
     index_in_epoch ld < int (sample_n ld))"

text \<open>The number of samples handed out so far, counted from the loader's two counters.\<close>

definition served :: "('a, 'b) DataLoader \<Rightarrow> int" where
  "served ld = int (epochs_completed ld) * int (sample_n ld) + index_in_epoch ld"

text \<open>Two loader states over the same arrays.\<close>

definition same_data :: "('a, 'b) DataLoader \<Rightarrow> ('a, 'b) DataLoader \<Rightarrow> bool" where
  "same_data ld ld' = (dl_xs ld' = dl_xs ld \<and> dl_y ld' = dl_y ld \<and> sample_n ld' = sample_n ld)"

text \<open>A concrete shuffle and a concrete loader, for evaluating the model.\<close>

definition reverse_shuffle :: "unit \<Rightarrow> nat list \<Rightarrow> nat list \<times> unit" where
  "reverse_shuffle rng p = (rev p, rng)"

definition demo_loader :: "(nat, nat) DataLoader" where
  "demo_loader = \<lparr>dl_xs = [[10, 20, 30]], dl_y = Some [1, 2, 3], epochs_completed = 0,
     index_in_epoch = 0, sample_n = 3, dl_perm = [0, 1, 2], for_eval = False\<rparr>"



section \<open>Label encoding\<close>

text \<open>
  Python compares two labels by identity or \<^verbatim>\<open>==\<close>, in \<^verbatim>\<open>set\<close> as in \<^verbatim>\<open>list.index\<close>. That
  comparison is the parameter \<open>py_eq\<close>: it need not hold of a label and itself (the
  elements read from a numpy array are fresh objects, and a NaN is \<^verbatim>\<open>==\<close> to nothing).
\<close>

text \<open>
  \<^verbatim>\<open>list.index\<close>: the position of the first entry that compares equal to \<open>x\<close>, ValueError
  when there is none.
\<close>

fun py_index :: "('a \<Rightarrow> 'a \<Rightarrow> bool) \<Rightarrow> 'a list \<Rightarrow> 'a \<Rightarrow> py_error + nat" where
  "py_index py_eq [] x = Inl ValueError"
| "py_index py_eq (t # ts) x =
     (if py_eq t x then Inr 0
      else (case py_index py_eq ts x of Inl e \<Rightarrow> Inl e | Inr k \<Rightarrow> Inr (Suc k)))"

text \<open>
  \<^verbatim>\<open>tag2int\<close>. The order in which \<^verbatim>\<open>list(set(label))\<close> lists the labels it keeps is left
  open by Python: the model takes that listing as the function \<open>list_of_set\<close>.
\<close>

definition tag2int ::
  "('a \<Rightarrow> 'a \<Rightarrow> bool) \<Rightarrow> ('a list \<Rightarrow> 'a list) \<Rightarrow> 'a list \<Rightarrow> py_error + (nat list \<times> 'a list)" where
  "tag2int py_eq list_of_set label =
     (let tags = list_of_set label
      in case collect (map (\<lambda>x. py_index py_eq tags x) label) of
           Inl e \<Rightarrow> Inl e
         | Inr int_label \<Rightarrow> Inr (int_label, tags))"

text \<open>No two entries of a list compare equal.\<close>

fun no_equal_pair :: "('a \<Rightarrow> 'a \<Rightarrow> bool) \<Rightarrow> 'a list \<Rightarrow> bool" where
  "no_equal_pair py_eq [] = True"
| "no_equal_pair py_eq (t # ts) =
     (list_all (\<lambda>u. \<not> py_eq t u \<and> \<not> py_eq u t) ts \<and> no_equal_pair py_eq ts)"

text \<open>
  What \<^verbatim>\<open>list(set(label))\<close> guarantees of its result \<open>tags\<close>: it lists labels of the
  sequence only, every label of the sequence is listed or compares equal to a listed one,
  and no two listed labels compare equal.
\<close>

definition set_listing :: "('a \<Rightarrow> 'a \<Rightarrow> bool) \<Rightarrow> 'a list \<Rightarrow> 'a list \<Rightarrow> bool" where
  "set_listing py_eq tags label =
     (list_all (\<lambda>t. t \<in> set label) tags \<and>
      list_all (\<lambda>x. list_ex (\<lambda>t. t = x \<or> py_eq t x) tags) label \<and>
      no_equal_pair py_eq tags)"

text \<open>
  The values of a numpy array of floats with \<^verbatim>\<open>==\<close> on them: a number or NaN, and NaN
  equals nothing.
\<close>

datatype np_float = Num int | NaN

definition np_eq :: "np_float \<Rightarrow> np_float \<Rightarrow> bool" where
  "np_eq a b = (a \<noteq> NaN \<and> a = b)"

text \<open>
  One listing that \<^verbatim>\<open>list(set(label))\<close> can give: the labels in the order in which the set
  took them in, a label being taken in unless a label kept before compares equal to it.
\<close>

fun set_insert_all :: "('a \<Rightarrow> 'a \<Rightarrow> bool) \<Rightarrow> 'a list \<Rightarrow> 'a list \<Rightarrow> 'a list" where
  "set_insert_all py_eq kept [] = kept"
| "set_insert_all py_eq kept (x # xs) =
     set_insert_all py_eq (if list_ex (\<lambda>e. py_eq e x) kept then kept else kept @ [x]) xs"

definition py_set_list :: "('a \<Rightarrow> 'a \<Rightarrow> bool) \<Rightarrow> 'a list \<Rightarrow> 'a list" where
  "py_set_list py_eq l = set_insert_all py_eq [] l"

section \<open>Adjacency builders\<close>

text \<open>
  A scipy \<^verbatim>\<open>dok_matrix\<close> of booleans: its shape and its entries (an entry never set reads
  False). Coordinates are numpy floats; the model computes with real numbers, so rounding
  is outside it.
\<close>

record dok_matrix =
  dok_shape :: "nat \<times> nat"
  dok_entries :: "nat \<times> nat \<Rightarrow> bool"

definition dok_new :: "nat \<Rightarrow> nat \<Rightarrow> dok_matrix" where
  "dok_new n m = \<lparr>dok_shape = (n, m), dok_entries = (\<lambda>k. False)\<rparr>"

text \<open>\<^verbatim>\<open>A[i, j] = v\<close>, IndexError outside the shape.\<close>

definition dok_set :: "dok_matrix \<Rightarrow> nat \<Rightarrow> nat \<Rightarrow> bool \<Rightarrow> py_error + dok_matrix" where
  "dok_set A i j v =
     (if i < fst (dok_shape A) \<and> j < snd (dok_shape A)
      then Inr (A\<lparr>dok_entries := (dok_entries A)((i, j) := v)\<rparr>)
      else Inl IndexError)"

text \<open>\<^verbatim>\<open>np.where(a)[0]\<close>: the positions of the True entries, in increasing order.\<close>

definition np_where :: "bool list \<Rightarrow> nat list" where
  "np_where a = filter (\<lambda>j. a ! j) [0..<length a]"

text \<open>The loop \<^verbatim>\<open>for col in cols: adjacency[i,col] = True\<close>.\<close>

fun set_cols :: "dok_matrix \<Rightarrow> nat \<Rightarrow> nat list \<Rightarrow> py_error + dok_matrix" where
  "set_cols A i [] = Inr A"
| "set_cols A i (col # cols) =
     (case dok_set A i col True of Inl e \<Rightarrow> Inl e | Inr A' \<Rightarrow> set_cols A' i cols)"

text \<open>
  The body of the loop of \<^verbatim>\<open>get_adjacency\<close> up to \<^verbatim>\<open>adjacency_array\<close>: the difference to
  point \<open>i\<close> row by row, squared, summed along axis 1, the square root, the comparison
  with the threshold, and the diagonal entry cleared when \<^verbatim>\<open>exclude_self\<close> is set.
\<close>

definition adjacency_array :: "real list list \<Rightarrow> real \<Rightarrow> bool \<Rightarrow> nat \<Rightarrow> bool list" where
  "adjacency_array coordinate threshold_distance exclude_self i =
     (let difference = map (\<lambda>row. map (\<lambda>(a, b). a - b) (zip row (coordinate ! i))) coordinate;
          difference2 = map (\<lambda>row. map (\<lambda>d. d ^ 2) row) difference;
          euclidean_distance = map (\<lambda>row. sqrt (sum_list row)) difference2;
          a = map (\<lambda>d. d < threshold_distance) euclidean_distance
      in if exclude_self then a[i := False] else a)"

fun adjacency_rows ::
  "real list list \<Rightarrow> real \<Rightarrow> bool \<Rightarrow> dok_matrix \<Rightarrow> nat list \<Rightarrow> py_error + dok_matrix" where
  "adjacency_rows coordinate threshold_distance exclude_self A [] = Inr A"
| "adjacency_rows coordinate threshold_distance exclude_self A (i # is) =
     (let cols = np_where (adjacency_array coordinate threshold_distance exclude_self i)
      in case set_cols A i cols of
           Inl e \<Rightarrow> Inl e
         | Inr A' \<Rightarrow> adjacency_rows coordinate threshold_distance exclude_self A' is)"

definition get_adjacency :: "real list list \<Rightarrow> real \<Rightarrow> bool \<Rightarrow> py_error + dok_matrix" where
  "get_adjacency coordinate threshold_distance exclude_self =
     (let sample_n = length coordinate
      in adjacency_rows coordinate threshold_distance exclude_self
           (dok_new sample_n sample_n) [0..<sample_n])"

text \<open>
  The claims' words: the Euclidean distance of two points, and a coordinate array all of
  whose rows have \<open>d\<close> entries.
\<close>

definition euclid_dist :: "real list \<Rightarrow> real list \<Rightarrow> real" where
  "euclid_dist p q = sqrt (\<Sum>k < length p. (p ! k - q ! k) ^ 2)"

definition rectangular :: "real list list \<Rightarrow> nat \<Rightarrow> bool" where
  "rectangular coordinate d = (\<forall>row \<in> set coordinate. length row = d)"

text \<open>
  The distances of \<^verbatim>\<open>get_adjacency_knearest\<close>: only the columns 0 and 1 of the
  difference enter (\<^verbatim>\<open>difference[:,0]\<close>, \<^verbatim>\<open>difference[:,1]\<close>); indexing a column that the
  array does not have raises IndexError.
\<close>

definition knn_distance :: "real list list \<Rightarrow> nat \<Rightarrow> py_error + real list" where
  "knn_distance coordinate i =
     (let difference = map (\<lambda>row. map (\<lambda>(a, b). a - b) (zip row (coordinate ! i))) coordinate
      in if list_all (\<lambda>row. 2 \<le> length row) difference
         then Inr (map (\<lambda>row. sqrt ((row ! 0) ^ 2 + (row ! 1) ^ 2)) difference)
         else Inl IndexError)"

text \<open>
  The loop of \<^verbatim>\<open>get_adjacency_knearest\<close>. \<^verbatim>\<open>np.argsort\<close> is a parameter: numpy's default
  sort does not say how it orders equal keys.
\<close>

fun knearest_rows ::
  "(real list \<Rightarrow> nat list) \<Rightarrow> real list list \<Rightarrow> int \<Rightarrow> bool \<Rightarrow> dok_matrix \<Rightarrow> nat list \<Rightarrow>
   py_error + dok_matrix" where
  "knearest_rows argsort coordinate nearest_k exclude_self A [] = Inr A"
| "knearest_rows argsort coordinate nearest_k exclude_self A (i # is) =
     (case knn_distance coordinate i of
        Inl e \<Rightarrow> Inl e
      | Inr euclidean_distance \<Rightarrow>
          (let sort_idx = argsort euclidean_distance
           in case set_cols A i (py_slice sort_idx 0 nearest_k) of
                Inl e \<Rightarrow> Inl e
              | Inr A1 \<Rightarrow>
                  (case (if exclude_self then dok_set A1 i i False else Inr A1) of
                     Inl e \<Rightarrow> Inl e
                   | Inr A2 \<Rightarrow> knearest_rows argsort coordinate nearest_k exclude_self A2 is)))"

definition get_adjacency_knearest ::
  "(real list \<Rightarrow> nat list) \<Rightarrow> real list list \<Rightarrow> int \<Rightarrow> bool \<Rightarrow> py_error + dok_matrix" where
  "get_adjacency_knearest argsort coordinate nearest_k exclude_self =
     (let sample_n = length coordinate;
          k = (if exclude_self then nearest_k + 1 else nearest_k)
      in knearest_rows argsort coordinate k exclude_self (dok_new sample_n sample_n) [0..<sample_n])"

text \<open>
  What \<^verbatim>\<open>np.argsort\<close> guarantees (a permutation of the positions that sorts the keys), and
  the argsort that keeps equal keys in index order.
\<close>

definition argsort_ok :: "(real list \<Rightarrow> nat list) \<Rightarrow> bool" where
  "argsort_ok argsort =
     (\<forall>ds. mset (argsort ds) = mset [0..<length ds] \<and> sorted (map (\<lambda>i. ds ! i) (argsort ds)))"

definition stable_argsort :: "real list \<Rightarrow> nat list" where
  "stable_argsort ds = sort_key (\<lambda>i. ds ! i) [0..<length ds]"

text \<open>The number of True entries of row \<open>i\<close> of a matrix, and their columns.\<close>

definition row_count :: "dok_matrix \<Rightarrow> nat \<Rightarrow> nat" where
  "row_count A i = length (filter (\<lambda>j. dok_entries A (i, j)) [0..<snd (dok_shape A)])"

definition row_cols :: "dok_matrix \<Rightarrow> nat \<Rightarrow> nat list" where
  "row_cols A i = filter (\<lambda>j. dok_entries A (i, j)) [0..<snd (dok_shape A)]"

text \<open>The neighbours (True columns) of every row of the matrix \<^verbatim>\<open>get_adjacency_knearest\<close> returns.\<close>

definition knearest_neighbours ::
  "(real list \<Rightarrow> nat list) \<Rightarrow> real list list \<Rightarrow> int \<Rightarrow> bool \<Rightarrow> py_error + nat list list" where
  "knearest_neighbours argsort coordinate nearest_k exclude_self =
     (case get_adjacency_knearest argsort coordinate nearest_k exclude_self of
        Inl e \<Rightarrow> Inl e
      | Inr A \<Rightarrow> Inr (map (\<lambda>i. row_cols A i) [0..<length coordinate]))"

section \<open>Neighbourhood counts\<close>

text \<open>
  The number types of the arrays: bool, the unsigned and the signed integers of 8 to 64
  bits, and float64.
\<close>

datatype width = W8 | W16 | W32 | W64

fun bits :: "width \<Rightarrow> nat" where
  "bits W8 = 8"
| "bits W16 = 16"
| "bits W32 = 32"
| "bits W64 = 64"

datatype dtype = NpBool | NpUInt width | NpInt width | NpFloat64

text \<open>
  The number type in which numpy computes the product of two arrays: bool gives way to
  every other type, float64 wins over every other type, two integer types of one kind
  give the wider one, and an unsigned with a signed type gives the signed type that
  holds both (float64 when the unsigned one has 64 bits).
\<close>

definition wider :: "width \<Rightarrow> width \<Rightarrow> width" where
  "wider a b = (if bits a \<le> bits b then b else a)"

fun twice :: "width \<Rightarrow> width" where
  "twice W8 = W16"
| "twice W16 = W32"
| "twice W32 = W64"
| "twice W64 = W64"

definition mixed :: "width \<Rightarrow> width \<Rightarrow> dtype" where
  "mixed u s = (if bits u < bits s then NpInt s
                else if u = W64 then NpFloat64 else NpInt (twice u))"

fun promote :: "dtype \<Rightarrow> dtype \<Rightarrow> dtype" where
  "promote NpBool t = t"
| "promote t NpBool = t"
| "promote NpFloat64 t = NpFloat64"
| "promote t NpFloat64 = NpFloat64"
| "promote (NpUInt a) (NpUInt b) = NpUInt (wider a b)"
| "promote (NpInt a) (NpInt b) = NpInt (wider a b)"
| "promote (NpUInt a) (NpInt b) = mixed a b"
| "promote (NpInt a) (NpUInt b) = mixed b a"

text \<open>
  What an entry of a product holds when the sum of its products is the integer \<open>k\<close>:
  a bool product is an or of ands, an integer type wraps around, float64 holds the
  integer itself.
\<close>

fun np_cast :: "dtype \<Rightarrow> int \<Rightarrow> int" where
  "np_cast NpBool k = (if k = 0 then 0 else 1)"
| "np_cast (NpUInt w) k = k mod 2 ^ bits w"
| "np_cast (NpInt w) k = (k + 2 ^ (bits w - 1)) mod 2 ^ bits w - 2 ^ (bits w - 1)"
| "np_cast NpFloat64 k = k"

text \<open>
  \<^verbatim>\<open>get_neighbourhood_count\<close> writes into the array it is given, so arrays live in a store
  and arguments are addresses: the caller sees what the callee wrote. \<open>mats\<close> holds the
  entries of the two-dimensional arrays and \<open>mat_dtype\<close> their number types, \<open>vecs\<close> the
  one-dimensional arrays of integers; the entries are integers, True being 1.
\<close>

record store =
  mats :: "nat \<Rightarrow> int list list"
  mat_dtype :: "nat \<Rightarrow> dtype"
  vecs :: "nat \<Rightarrow> int list"

text \<open>
  The argument \<^verbatim>\<open>label\<close> together with the flag \<^verbatim>\<open>one_hot_label\<close>: a one-hot matrix when
  the flag is True, a vector of integer labels when it is False.
\<close>

datatype label_arg = One_hot nat | Integer_encoded nat

text \<open>\<^verbatim>\<open>label.shape[0]\<close>.\<close>

definition label_rows :: "store \<Rightarrow> label_arg \<Rightarrow> nat" where
  "label_rows st label =
     (case label of One_hot l \<Rightarrow> length (mats st l) | Integer_encoded l \<Rightarrow> length (vecs st l))"

text \<open>\<^verbatim>\<open>np.unique\<close>: the sorted distinct values of the flattened array.\<close>

definition np_unique :: "int list \<Rightarrow> int list" where
  "np_unique v = sort (remdups v)"

text \<open>The entries of the label array, flattened, as \<^verbatim>\<open>np.unique\<close> reads them.\<close>

definition label_values :: "store \<Rightarrow> label_arg \<Rightarrow> int list" where
  "label_values st label =
     (case label of One_hot l \<Rightarrow> concat (mats st l) | Integer_encoded l \<Rightarrow> vecs st l)"

text \<open>A numpy index into an axis of length \<open>n\<close>: negative indices count from the end.\<close>

definition py_wrap_index :: "nat \<Rightarrow> int \<Rightarrow> py_error + nat" where
  "py_wrap_index n i =
     (if 0 \<le> i \<and> i < int n then Inr (nat i)
      else if - int n \<le> i \<and> i < 0 then Inr (nat (int n + i))
      else Inl IndexError)"

text \<open>
  \<^verbatim>\<open>one_hot = np.zeros((sample_n,label_n)); one_hot[np.arange(sample_n),label] = 1\<close>:
  row \<open>j\<close> is zero except for a 1 in column \<open>label[j]\<close>.
\<close>

definition one_hot_rows :: "nat \<Rightarrow> int list \<Rightarrow> py_error + int list list" where
  "one_hot_rows label_n label =
     collect (map (\<lambda>c. case py_wrap_index label_n c of
                           Inl e \<Rightarrow> Inl e
                         | Inr k \<Rightarrow> Inr ((replicate label_n 0)[k := 1])) label)"

text \<open>\<^verbatim>\<open>adjacency[diag_mask] = 0\<close> for the mask \<^verbatim>\<open>np.eye(sample_n).astype(bool)\<close>.\<close>

definition zero_diagonal :: "int list list \<Rightarrow> int list list" where
  "zero_diagonal A = map (\<lambda>(i, row). row[i := 0]) (zip [0..<length A] A)"

text \<open>
  \<^verbatim>\<open>A.dot(B)\<close> of two matrices, computed in the number type \<open>dt\<close>; ValueError when the
  inner dimensions differ.
\<close>

definition mat_dot :: "dtype \<Rightarrow> int list list \<Rightarrow> int list list \<Rightarrow> py_error + int list list" where
  "mat_dot dt A B =
     (if list_all (\<lambda>row. length row = length B) A
      then Inr (map (\<lambda>row. map (\<lambda>c. np_cast dt
                                        (sum_list (map (\<lambda>(a, brow). a * brow ! c) (zip row B))))
                              [0..<(case B of [] \<Rightarrow> 0 | b0 # bs \<Rightarrow> length b0)]) A)
      else Inl ValueError)"

text \<open>
  \<^verbatim>\<open>get_neighbourhood_count\<close>. With a one-hot label \<^verbatim>\<open>one_hot\<close> is the label array itself
  (\<open>Inl\<close> of its address), otherwise a fresh array (\<open>Inr\<close>), which \<^verbatim>\<open>np.zeros\<close> makes a
  float64 array. The boolean mask has shape \<open>sample_n\<close> by \<open>sample_n\<close>; indexing an array
  of another shape with it raises IndexError. The product reads \<^verbatim>\<open>one_hot\<close> after the
  diagonal was written; the result is the number type and the entries of \<^verbatim>\<open>nb_count\<close>,
  with the store as the call leaves it.
\<close>

definition get_neighbourhood_count ::
  "store \<Rightarrow> nat \<Rightarrow> label_arg \<Rightarrow> bool \<Rightarrow> py_error + ((dtype \<times> int list list) \<times> store)" where
  "get_neighbourhood_count st adjacency label exclude_self =
     (let sample_n = length (mats st adjacency)
      in if label_rows st label \<noteq> sample_n then Inl AssertionError
         else
           (let tags = np_unique (label_values st label)
            in case (case label of
                       One_hot l \<Rightarrow> Inr (Inl l)
                     | Integer_encoded l \<Rightarrow>
                         (case one_hot_rows (length tags) (vecs st l) of
                            Inl e \<Rightarrow> Inl e | Inr fresh \<Rightarrow> Inr (Inr fresh))) of
                 Inl e \<Rightarrow> Inl e
               | Inr one_hot \<Rightarrow>
                   (case (if exclude_self
                          then (if list_all (\<lambda>row. length row = sample_n) (mats st adjacency)
                                then Inr (st\<lparr>mats := (mats st)
                                            (adjacency := zero_diagonal (mats st adjacency))\<rparr>)
                                else Inl IndexError)
                          else Inr st) of
                      Inl e \<Rightarrow> Inl e
                    | Inr st' \<Rightarrow>
                        (let dt = promote (mat_dtype st' adjacency)
                                    (case one_hot of Inl l \<Rightarrow> mat_dtype st' l
                                     | Inr fresh \<Rightarrow> NpFloat64)
                         in case mat_dot dt (mats st' adjacency)
                                   (case one_hot of Inl l \<Rightarrow> mats st' l | Inr fresh \<Rightarrow> fresh) of
                              Inl e \<Rightarrow> Inl e
                            | Inr nb_count \<Rightarrow> Inr ((dt, nb_count), st')))))"

text \<open>The claims' words for the arguments of \<^verbatim>\<open>get_neighbourhood_count\<close>.\<close>

definition is_matrix :: "int list list \<Rightarrow> nat \<Rightarrow> nat \<Rightarrow> bool" where
  "is_matrix A n m = (length A = n \<and> (\<forall>row \<in> set A. length row = m))"

definition zero_one :: "int list list \<Rightarrow> bool" where
  "zero_one A = (\<forall>row \<in> set A. \<forall>v \<in> set row. v = 0 \<or> v = 1)"

text \<open>
  A label argument for \<open>n\<close> samples and \<open>m\<close> label types: an \<open>n\<close> by \<open>m\<close> 0-1 matrix, or
  \<open>n\<close> integer codes which are the numbers below \<open>m\<close>, each of them in use (the encoding
  that \<^verbatim>\<open>tag2int\<close> produces).
\<close>

definition label_ok :: "store \<Rightarrow> label_arg \<Rightarrow> nat \<Rightarrow> nat \<Rightarrow> bool" where
  "label_ok st label n m =
     (case label of
        One_hot l \<Rightarrow> is_matrix (mats st l) n m \<and> zero_one (mats st l)
      | Integer_encoded l \<Rightarrow> length (vecs st l) = n \<and> set (vecs st l) = int ` {..<m})"

text \<open>Sample \<open>j\<close> has label \<open>c\<close>.\<close>

definition has_label :: "store \<Rightarrow> label_arg \<Rightarrow> nat \<Rightarrow> nat \<Rightarrow> bool" where
  "has_label st label j c =
     (case label of
        One_hot l \<Rightarrow> mats st l ! j ! c = 1
      | Integer_encoded l \<Rightarrow> vecs st l ! j = int c)"

text \<open>The label array is another object than the adjacency matrix.\<close>

definition separate :: "nat \<Rightarrow> label_arg \<Rightarrow> bool" where
  "separate adjacency label =
     (case label of One_hot l \<Rightarrow> l \<noteq> adjacency | Integer_encoded l \<Rightarrow> True)"

text \<open>
  The number type of the product for the given arguments, and whether a number type
  holds the count \<open>k\<close> as it is.
\<close>

definition dot_dtype :: "store \<Rightarrow> nat \<Rightarrow> label_arg \<Rightarrow> dtype" where
  "dot_dtype st adjacency label =
     promote (mat_dtype st adjacency)
       (case label of One_hot l \<Rightarrow> mat_dtype st l | Integer_encoded l \<Rightarrow> NpFloat64)"

fun holds_count :: "dtype \<Rightarrow> nat \<Rightarrow> bool" where
  "holds_count NpBool k = (k \<le> 1)"
| "holds_count (NpUInt w) k = (k < 2 ^ bits w)"
| "holds_count (NpInt w) k = (k < 2 ^ (bits w - 1))"
| "holds_count NpFloat64 k = True"

text \<open>
  A concrete store: a 3 by 3 adjacency matrix at address 0 and a one-hot label matrix at
  address 1 of \<open>mats\<close>, both float64, the same labels as integer codes at address 0 of
  \<open>vecs\<close>.
\<close>

definition demo_store :: store where
  "demo_store = \<lparr>mats = (\<lambda>a. if a = 0 then [[1, 1, 0], [1, 1, 1], [0, 1, 1]]
                             else if a = 1 then [[1, 0], [0, 1], [1, 0]] else []),
                  mat_dtype = (\<lambda>a. NpFloat64),
                  vecs = (\<lambda>a. if a = 0 then [0, 1, 0] else [])\<rparr>"

text \<open>The same arrays as arrays of bool, and the integer codes 0, 2, 0 for the labels.\<close>

definition bool_store :: store where
  "bool_store = demo_store\<lparr>mat_dtype := (\<lambda>a. NpBool)\<rparr>"

definition gap_store :: store where
  "gap_store = demo_store\<lparr>vecs := (\<lambda>a. if a = 0 then [0, 2, 0] else [])\<rparr>"

text \<open>The array the label argument refers to.\<close>

definition label_array :: "store \<Rightarrow> label_arg \<Rightarrow> int list list + int list" where
  "label_array st label =
     (case label of One_hot l \<Rightarrow> Inl (mats st l) | Integer_encoded l \<Rightarrow> Inr (vecs st l))"

section \<open>Standardisation before PCA\<close>

text \<open>
  The numerical part of \<^verbatim>\<open>pca_reduce\<close>, over real numbers: numpy's floating-point
  rounding, and the \<open>nan\<close> that \<^verbatim>\<open>np.mean\<close> returns for an array without rows, are outside
  the model. A matrix is the list of its rows; its number of columns is read off the
  first row.
\<close>

definition n_cols :: "real list list \<Rightarrow> nat" where
  "n_cols X = (case X of [] \<Rightarrow> 0 | r # rs \<Rightarrow> length r)"

definition column :: "real list list \<Rightarrow> nat \<Rightarrow> real list" where
  "column X c = map (\<lambda>row. row ! c) X"

text \<open>\<^verbatim>\<open>np.mean(X, axis = 0, keepdims = True)\<close>: the mean of every column.\<close>

definition np_mean :: "real list list \<Rightarrow> real list" where
  "np_mean X = map (\<lambda>c. sum_list (column X c) / real (length X)) [0..<n_cols X]"

text \<open>
  \<^verbatim>\<open>np.std(X, axis = 0, keepdims = True)\<close>: the square root of the mean of the squared
  absolute deviations from the column's mean.
\<close>

definition np_std :: "real list list \<Rightarrow> real list" where
  "np_std X =
     map (\<lambda>c. let mu = sum_list (column X c) / real (length X)
              in sqrt (sum_list (map (\<lambda>v. \<bar>v - mu\<bar> ^ 2) (column X c)) / real (length X)))
         [0..<n_cols X]"

text \<open>Broadcasting a row vector over the rows: \<^verbatim>\<open>X - v\<close> and \<^verbatim>\<open>X / v\<close>.\<close>

definition sub_rows :: "real list list \<Rightarrow> real list \<Rightarrow> real list list" where
  "sub_rows X v = map (\<lambda>row. map (\<lambda>(a, b). a - b) (zip row v)) X"

definition div_rows :: "real list list \<Rightarrow> real list \<Rightarrow> real list list" where
  "div_rows X v = map (\<lambda>row. map (\<lambda>(a, b). a / b) (zip row v)) X"

text \<open>
  The centred matrix, and \<^verbatim>\<open>std\<close> after \<^verbatim>\<open>std[std==0] += 1e-9\<close>: the divisor of
  \<^verbatim>\<open>X = X/std\<close>.
\<close>

definition centred :: "real list list \<Rightarrow> real list list" where
  "centred X = sub_rows X (np_mean X)"

definition pseudo_std :: "real list list \<Rightarrow> real list" where
  "pseudo_std X = map (\<lambda>s. if s = 0 then s + 1 / 10 ^ 9 else s) (np_std (centred X))"

definition standardize :: "real list list \<Rightarrow> real list list" where
  "standardize X = div_rows (centred X) (pseudo_std X)"

text \<open>
  \<^verbatim>\<open>pca_reduce\<close>. The PCA of the library is a parameter: \<open>pca_fit\<close> builds and fits a model
  for \<open>dims\<close> components, \<open>pca_transform\<close> applies one.
\<close>

definition pca_reduce ::
  "(nat \<Rightarrow> real list list \<Rightarrow> 'p) \<Rightarrow> ('p \<Rightarrow> real list list \<Rightarrow> real list list) \<Rightarrow>
   real list list \<Rightarrow> nat \<Rightarrow> 'p option \<Rightarrow> real list list \<times> 'p" where
  "pca_reduce pca_fit pca_transform X dims pca =
     (let Xs = standardize X;
          p = (case pca of None \<Rightarrow> pca_fit dims Xs | Some q \<Rightarrow> q)
      in (pca_transform p Xs, p))"

text \<open>
  The claim's words, written without the code's functions: the mean and the standard
  deviation of column \<open>c\<close> of a matrix.
\<close>

definition col_mean :: "real list list \<Rightarrow> nat \<Rightarrow> real" where
  "col_mean X c = (\<Sum>j < length X. X ! j ! c) / real (length X)"

definition col_std :: "real list list \<Rightarrow> nat \<Rightarrow> real" where
  "col_std X c = sqrt ((\<Sum>j < length X. (X ! j ! c - col_mean X c) ^ 2) / real (length X))"

section \<open>Lemmas on slices and reads\<close>

lemma take_rows_ok: "\<forall>i \<in> set index. i < length x \<Longrightarrow> take_rows x index = Inr (map (\<lambda>i. x ! i) index)"
  by (simp add: take_rows_def)

lemma collect_map_ok: "(\<And>x. x \<in> set xs \<Longrightarrow> f x = Inr (g x)) \<Longrightarrow> collect (map f xs) = Inr (map g xs)"
  by (induction xs) auto

lemma perm_bound: "mset p = mset [0..<n] \<Longrightarrow> i \<in> set p \<Longrightarrow> i < n"
  by (metis atLeastLessThan_iff mset_eq_setD set_upt)

lemma perm_length: "mset p = mset [0..<n] \<Longrightarrow> length p = n"
  by (metis length_upt mset_eq_length minus_nat.diff_0)

lemma py_slice_tail:
  "0 \<le> i \<Longrightarrow> py_slice p i (int (length p)) = drop (nat i) p"
  by (cases "nat i \<le> length p") (simp_all add: py_slice_def slice_bound_def Let_def min_def)

lemma py_slice_window:
  "0 \<le> i \<Longrightarrow> 0 \<le> j \<Longrightarrow> py_slice p i (i + j) = take (nat j) (drop (nat i) p)"
  apply (simp add: py_slice_def slice_bound_def Let_def)
  apply (cases "nat i \<le> length p")
   apply (simp_all add: min_def nat_add_distrib)
  done

lemma py_slice_head:
  "0 \<le> j \<Longrightarrow> py_slice p 0 j = take (nat j) p"
  using py_slice_window [of 0 j p] by simp

lemma py_slice_subset: "set (py_slice p i j) \<subseteq> set p"
  unfolding py_slice_def Let_def
  by (meson set_take_subset set_drop_subset subset_trans)

lemma shuffle_ok_fst: "shuffle_ok shuf \<Longrightarrow> mset (fst (shuf r p)) = mset p"
  by (simp add: shuffle_ok_def)



lemma read_ok_train:
  assumes "loader_wf ld" "\<not> for_eval ld" "dl_y ld = Some yv"
    "mset p = mset [0..<sample_n ld]" "set index \<subseteq> set p"
  shows "read_into_memory ld index =
           Inr (map (\<lambda>x. map (\<lambda>i. x ! i) index) (dl_xs ld), Some (map (\<lambda>i. yv ! i) index))"
proof -
  have b: "\<forall>i \<in> set index. i < sample_n ld"
    using assms(4,5) perm_bound by blast
  have xs: "collect (map (\<lambda>x. take_rows x index) (dl_xs ld)) = Inr (map (\<lambda>x. map (\<lambda>i. x ! i) index) (dl_xs ld))"
    using assms(1) b by (intro collect_map_ok take_rows_ok) (simp add: loader_wf_def)
  have "length yv = sample_n ld"
    using assms(1,2,3) by (auto simp: loader_wf_def)
  then have "take_rows yv index = Inr (map (\<lambda>i. yv ! i) index)"
    using b by (intro take_rows_ok) simp
  then show ?thesis using assms(2,3) by (simp add: read_into_memory_def xs)
qed


lemma multi_concatenate_gather:
  "multi_concatenate (map (\<lambda>x. map (\<lambda>i. x ! i) is) xs) (map (\<lambda>x. map (\<lambda>i. x ! i) js) xs)
     = map (\<lambda>x. map (\<lambda>i. x ! i) (is @ js)) xs"
  by (induction xs) (simp_all add: multi_concatenate_def)

lemma case_map_ne:
  "xs \<noteq> [] \<Longrightarrow> (case map F xs of [] \<Rightarrow> a | r0 # t \<Rightarrow> g r0) = g (F (hd xs))"
  by (cases xs) auto

lemma next_batch_no_wrap:
  assumes wf: "loader_wf ld" and tr: "\<not> for_eval ld" and y: "dl_y ld = Some yv"
    and sh: "shuffle_ok shuf"
    and i0: "0 \<le> index_in_epoch ld" and b0: "0 \<le> b"
    and nw: "index_in_epoch ld + b < int (sample_n ld)"
    and p1: "(if epochs_completed ld = 0 \<and> index_in_epoch ld = 0 \<and> s
              then shuf rng (dl_perm ld) else (dl_perm ld, rng)) = (p1, r1)"
  shows "next_batch shuf ld rng b s =
           Inr ([], (map (\<lambda>x. map (\<lambda>i. x ! i) (take (nat b) (drop (nat (index_in_epoch ld)) p1))) (dl_xs ld),
                     Some (map (\<lambda>i. yv ! i) (take (nat b) (drop (nat (index_in_epoch ld)) p1)))),
                ld\<lparr>index_in_epoch := index_in_epoch ld + b, dl_perm := p1\<rparr>, r1)"
proof -
  have m1: "mset p1 = mset [0..<sample_n ld]"
    using p1 wf shuffle_ok_fst [OF sh, of rng "dl_perm ld"]
    by (auto simp: loader_wf_def split: if_splits)
  have rd: "read_into_memory ld (py_slice p1 (index_in_epoch ld) (index_in_epoch ld + b)) =
          Inr (map (\<lambda>x. map (\<lambda>i. x ! i) (take (nat b) (drop (nat (index_in_epoch ld)) p1))) (dl_xs ld),
               Some (map (\<lambda>i. yv ! i) (take (nat b) (drop (nat (index_in_epoch ld)) p1))))"
    using read_ok_train [OF wf tr y m1 py_slice_subset, of "index_in_epoch ld" "index_in_epoch ld + b"]
    by (simp add: py_slice_window [OF i0 b0])
  show ?thesis
    unfolding next_batch_def Let_def p1 using nw tr rd by simp
qed

lemma next_batch_wrap:
  assumes wf: "loader_wf ld" and tr: "\<not> for_eval ld" and y: "dl_y ld = Some yv"
    and sh: "shuffle_ok shuf"
    and i0: "0 \<le> index_in_epoch ld" and i1: "index_in_epoch ld < int (sample_n ld)"
    and w: "index_in_epoch ld + b \<ge> int (sample_n ld)"
    and p1: "(if epochs_completed ld = 0 \<and> index_in_epoch ld = 0 \<and> s
              then shuf rng (dl_perm ld) else (dl_perm ld, rng)) = (p1, r1)"
    and p2: "(if s then shuf r1 p1 else (p1, r1)) = (p2, r2)"
    and idx: "idx = drop (nat (index_in_epoch ld)) p1 @ take (nat (index_in_epoch ld + b - int (sample_n ld))) p2"
  shows "next_batch shuf ld rng b s =
           Inr ([], (map (\<lambda>x. map (\<lambda>i. x ! i) idx) (dl_xs ld), Some (map (\<lambda>i. yv ! i) idx)),
                ld\<lparr>epochs_completed := epochs_completed ld + 1,
                   index_in_epoch := index_in_epoch ld + b - int (sample_n ld), dl_perm := p2\<rparr>, r2)"
proof -
  let ?n = "sample_n ld" and ?i = "index_in_epoch ld"
  define ri where "ri = drop (nat ?i) p1"
  define ni where "ni = take (nat (?i + b - int ?n)) p2"
  have m1: "mset p1 = mset [0..<?n]"
    using p1 wf shuffle_ok_fst [OF sh, of rng "dl_perm ld"]
    by (auto simp: loader_wf_def split: if_splits)
  have m2: "mset p2 = mset [0..<?n]"
    using p2 m1 shuffle_ok_fst [OF sh, of r1 p1]
    by (auto split: if_splits)
  have l1: "length p1 = ?n" using m1 by (rule perm_length)
  have s1: "py_slice p1 ?i (int ?n) = ri"
    using py_slice_tail [OF i0, of p1] l1 by (simp add: ri_def)
  have e0: "0 \<le> b - (int ?n - ?i)" using w by simp
  have s2: "py_slice p2 0 (b - (int ?n - ?i)) = ni"
    using py_slice_head [OF e0, of p2] by (simp add: algebra_simps ni_def)
  have rd1: "read_into_memory ld ri =
          Inr (map (\<lambda>x. map (\<lambda>i. x ! i) ri) (dl_xs ld), Some (map (\<lambda>i. yv ! i) ri))"
    using read_ok_train [OF wf tr y m1 py_slice_subset, of ?i "int ?n"] s1 by simp
  have rd2: "read_into_memory ld ni =
          Inr (map (\<lambda>x. map (\<lambda>i. x ! i) ni) (dl_xs ld), Some (map (\<lambda>i. yv ! i) ni))"
    using read_ok_train [OF wf tr y m2 py_slice_subset, of 0 "b - (int ?n - ?i)"] s2 by simp
  have ne: "dl_xs ld \<noteq> []" using wf by (simp add: loader_wf_def)
  have rne: "ri \<noteq> []" using i0 i1 l1 by (simp add: ri_def)
  have e: "b - (int ?n - ?i) = ?i + b - int ?n" by simp
  have mc: "ni = [] \<Longrightarrow> map (\<lambda>x. map (\<lambda>i. x ! i) ri) (dl_xs ld) = map (\<lambda>x. map (\<lambda>i. x ! i) (ri @ ni)) (dl_xs ld)"
    by simp
  have nb: "next_batch shuf ld rng b s =
         Inr ([], (map (\<lambda>x. map (\<lambda>i. x ! i) (ri @ ni)) (dl_xs ld), Some (map (\<lambda>i. yv ! i) (ri @ ni))),
              ld\<lparr>epochs_completed := epochs_completed ld + 1,
                 index_in_epoch := ?i + b - int ?n, dl_perm := p2\<rparr>, r2)"
    using w tr rne
    apply (simp only: next_batch_def Let_def p1 prod.case p2)
    by (simp add: s1 s2 [unfolded e] rd1 rd2 e case_map_ne [OF ne] concat_labels_def
        multi_concatenate_gather)
  show ?thesis
    unfolding nb idx ri_def ni_def by simp
qed



lemma init_train_inv:
  assumes "init xs (Some yv) False = Inr ld0" "length yv = sample_n ld0" "0 < sample_n ld0"
  shows "train_inv ld0"
  using assms
  by (auto simp: init_def train_inv_def loader_wf_def split: list.splits if_splits)

lemma init_fields:
  assumes "init xs y fe = Inr ld0"
  shows "dl_xs ld0 = xs" "dl_y ld0 = y" "epochs_completed ld0 = 0" "index_in_epoch ld0 = 0"
    "dl_perm ld0 = [0..<sample_n ld0]" "for_eval ld0 = fe"
  using assms by (auto simp: init_def split: list.splits if_splits)

lemma train_step:
  assumes inv: "train_inv ld" and sh: "shuffle_ok shuf"
    and b1: "1 \<le> b" and b2: "b \<le> int (sample_n ld)"
  shows "\<exists>batch ld' r'. next_batch shuf ld rng b s = Inr ([], batch, ld', r') \<and>
           train_inv ld' \<and> same_data ld ld' \<and> served ld' = served ld + b"
proof -
  obtain yv where y: "dl_y ld = Some yv"
    using inv by (auto simp: train_inv_def loader_wf_def)
  obtain p1 r1 where p1: "(if epochs_completed ld = 0 \<and> index_in_epoch ld = 0 \<and> s
              then shuf rng (dl_perm ld) else (dl_perm ld, rng)) = (p1, r1)"
    by (cases "(if epochs_completed ld = 0 \<and> index_in_epoch ld = 0 \<and> s
              then shuf rng (dl_perm ld) else (dl_perm ld, rng))") auto
  obtain p2 r2 where p2: "(if s then shuf r1 p1 else (p1, r1)) = (p2, r2)"
    by (cases "(if s then shuf r1 p1 else (p1, r1))") auto
  have wf: "loader_wf ld" and tr: "\<not> for_eval ld" and i0: "0 \<le> index_in_epoch ld"
    and i1: "index_in_epoch ld < int (sample_n ld)"
    using inv by (auto simp: train_inv_def)
  have m1: "mset p1 = mset [0..<sample_n ld]"
    using p1 wf shuffle_ok_fst [OF sh, of rng "dl_perm ld"]
    by (auto simp: loader_wf_def split: if_splits)
  have m2: "mset p2 = mset [0..<sample_n ld]"
    using p2 m1 shuffle_ok_fst [OF sh, of r1 p1]
    by (auto split: if_splits)
  show ?thesis
  proof (cases "index_in_epoch ld + b \<ge> int (sample_n ld)")
    case True
    have "train_inv (ld\<lparr>epochs_completed := epochs_completed ld + 1,
                   index_in_epoch := index_in_epoch ld + b - int (sample_n ld), dl_perm := p2\<rparr>)"
      using inv True b2 m2 by (auto simp: train_inv_def loader_wf_def)
    moreover have "served (ld\<lparr>epochs_completed := epochs_completed ld + 1,
                   index_in_epoch := index_in_epoch ld + b - int (sample_n ld), dl_perm := p2\<rparr>)
                   = served ld + b"
      by (simp add: served_def algebra_simps)
    ultimately show ?thesis
      using next_batch_wrap [OF wf tr y sh i0 i1 True p1 p2 refl]
      by (simp add: same_data_def)
  next
    case False
    then have nw: "index_in_epoch ld + b < int (sample_n ld)" by simp
    have b0: "0 \<le> b" using b1 by simp
    have "train_inv (ld\<lparr>index_in_epoch := index_in_epoch ld + b, dl_perm := p1\<rparr>)"
      using inv nw b1 m1 by (auto simp: train_inv_def loader_wf_def)
    moreover have "served (ld\<lparr>index_in_epoch := index_in_epoch ld + b, dl_perm := p1\<rparr>)
                   = served ld + b"
      by (simp add: served_def)
    ultimately show ?thesis
      using next_batch_no_wrap [OF wf tr y sh i0 b0 nw p1]
      by (simp add: same_data_def)
  qed
qed

lemma run_calls_train:
  assumes "train_inv ld" "shuffle_ok shuf"
    "\<forall>c \<in> set calls. 1 \<le> fst c \<and> fst c \<le> int (sample_n ld)"
  shows "\<exists>ld' r'. run_calls shuf ld rng calls = Inr (ld', r') \<and> train_inv ld' \<and>
           same_data ld ld' \<and> served ld' = served ld + sum_list (map fst calls)"
  using assms
proof (induction calls arbitrary: ld rng)
  case Nil
  then show ?case by (simp add: same_data_def)
next
  case (Cons c cs)
  from Cons.prems obtain batch ld1 r1 where
    st: "next_batch shuf ld rng (fst c) (snd c) = Inr ([], batch, ld1, r1)"
    and inv1: "train_inv ld1" and sd: "same_data ld ld1" and sv: "served ld1 = served ld + fst c"
    using train_step [of ld shuf "fst c" rng "snd c"] by auto
  have "\<forall>c \<in> set cs. 1 \<le> fst c \<and> fst c \<le> int (sample_n ld1)"
    using Cons.prems(3) sd by (simp add: same_data_def)
  from Cons.IH [OF inv1 Cons.prems(2) this, of r1] obtain ld' r' where
    "run_calls shuf ld1 r1 cs = Inr (ld', r')" "train_inv ld'" "same_data ld1 ld'"
    "served ld' = served ld1 + sum_list (map fst cs)"
    by auto
  then show ?case using st sd sv by (auto simp: same_data_def)
qed



lemma served_init: "init xs y fe = Inr ld0 \<Longrightarrow> served ld0 = 0"
  by (simp add: served_def init_fields)

lemma sum_calls_pos:
  "cs \<noteq> [] \<Longrightarrow> \<forall>c \<in> set cs. 1 \<le> fst c \<Longrightarrow> (1::int) \<le> sum_list (map fst cs)"
proof (induction cs)
  case Nil
  then show ?case by simp
next
  case (Cons c cs)
  show ?case
  proof (cases "cs = []")
    case True
    then show ?thesis using Cons.prems by simp
  next
    case False
    then have "1 \<le> sum_list (map fst cs)" using Cons by simp
    then show ?thesis using Cons.prems by simp
  qed
qed

lemma first_call_only:
  assumes "served ld = sum_list (map fst calls)" "calls \<noteq> []"
    "\<forall>c \<in> set calls. 1 \<le> fst c" "0 \<le> index_in_epoch ld"
  shows "\<not> (epochs_completed ld = 0 \<and> index_in_epoch ld = 0)"
proof -
  have "1 \<le> served ld" using assms sum_calls_pos [of calls] by simp
  then show ?thesis by (auto simp: served_def)
qed

section \<open>Claims on the loader in training mode\<close>

text \<open>
  Claim C1. A loader built by \<^verbatim>\<open>__init__\<close> with \<^verbatim>\<open>for_eval = False\<close> over arrays and labels
  of common length \<open>sample_n\<close> is called any number of times with batch sizes between 1
  and \<open>sample_n\<close>. Every such call returns, and the batch of one more such call has every
  array, and the labels, of first dimension exactly \<open>batch_size\<close>. When that call
  crosses the epoch boundary, the batch is the rest of the current epoch (the tail of the
  permutation in force, \<open>p_old\<close>) followed by the first samples of the next epoch (the
  head of the new permutation).
\<close>

theorem next_batch_size:
  assumes i: "init xs (Some yv) False = Inr ld0"
    and ly: "length yv = sample_n ld0"
    and sh: "shuffle_ok shuf"
    and cs: "\<forall>c \<in> set calls. 1 \<le> fst c \<and> fst c \<le> int (sample_n ld0)"
    and b1: "1 \<le> b" and b2: "b \<le> int (sample_n ld0)"
  shows "\<exists>ld r. run_calls shuf ld0 r0 calls = Inr (ld, r) \<and>
           (\<exists>bx by ld' r'. next_batch shuf ld r b s = Inr ([], (bx, Some by), ld', r') \<and>
              length bx = length xs \<and> (\<forall>a \<in> set bx. int (length a) = b) \<and> int (length by) = b \<and>
              (int (sample_n ld) \<le> index_in_epoch ld + b \<longrightarrow>
                 (let p_old = (if calls = [] \<and> s then fst (shuf r0 [0..<sample_n ld0]) else dl_perm ld);
                      idx = drop (nat (index_in_epoch ld)) p_old @
                            take (nat (index_in_epoch ld + b - int (sample_n ld))) (dl_perm ld')
                  in bx = map (\<lambda>x. map (\<lambda>i. x ! i) idx) xs \<and> by = map (\<lambda>i. yv ! i) idx)))"
proof -
  have n0: "0 < sample_n ld0" using b1 b2 by simp
  have inv0: "train_inv ld0" using init_train_inv [OF i ly n0] .
  obtain ld r where run: "run_calls shuf ld0 r0 calls = Inr (ld, r)" and inv: "train_inv ld"
    and sd: "same_data ld0 ld" and sv: "served ld = served ld0 + sum_list (map fst calls)"
    using run_calls_train [OF inv0 sh cs, of r0] by auto
  have n: "sample_n ld = sample_n ld0" and xs: "dl_xs ld = xs" and y: "dl_y ld = Some yv"
    using sd init_fields [OF i] by (auto simp: same_data_def)
  have wf: "loader_wf ld" and tr: "\<not> for_eval ld" and i0: "0 \<le> index_in_epoch ld"
    and i1: "index_in_epoch ld < int (sample_n ld)"
    using inv by (auto simp: train_inv_def)
  obtain p1 r1 where p1: "(if epochs_completed ld = 0 \<and> index_in_epoch ld = 0 \<and> s
              then shuf r (dl_perm ld) else (dl_perm ld, r)) = (p1, r1)"
    by (cases "(if epochs_completed ld = 0 \<and> index_in_epoch ld = 0 \<and> s
              then shuf r (dl_perm ld) else (dl_perm ld, r))") auto
  obtain p2 r2 where p2: "(if s then shuf r1 p1 else (p1, r1)) = (p2, r2)"
    by (cases "(if s then shuf r1 p1 else (p1, r1))") auto
  have m1: "mset p1 = mset [0..<sample_n ld]"
    using p1 wf shuffle_ok_fst [OF sh, of r "dl_perm ld"]
    by (auto simp: loader_wf_def split: if_splits)
  have m2: "mset p2 = mset [0..<sample_n ld]"
    using p2 m1 shuffle_ok_fst [OF sh, of r1 p1]
    by (auto split: if_splits)
  have l1: "length p1 = sample_n ld" and l2: "length p2 = sample_n ld"
    using perm_length [OF m1] perm_length [OF m2] by blast+
  have pold: "(if calls = [] \<and> s then fst (shuf r0 [0..<sample_n ld0]) else dl_perm ld) = p1"
  proof (cases "calls = []")
    case True
    then have "ld = ld0" "r = r0" using run by auto
    then show ?thesis using p1 True init_fields [OF i] by (auto split: if_splits)
  next
    case False
    have "served ld = sum_list (map fst calls)" using sv served_init [OF i] by simp
    from first_call_only [OF this False _ i0] cs
    have "\<not> (epochs_completed ld = 0 \<and> index_in_epoch ld = 0)" by auto
    then show ?thesis using p1 False by auto
  qed
  show ?thesis
  proof (cases "int (sample_n ld) \<le> index_in_epoch ld + b")
    case True
    define idx where "idx = drop (nat (index_in_epoch ld)) p1 @
                            take (nat (index_in_epoch ld + b - int (sample_n ld))) p2"
    have len: "int (length idx) = b"
      using True i0 i1 b2 l1 l2 n by (simp add: min_def idx_def)
    have st: "next_batch shuf ld r b s =
           Inr ([], (map (\<lambda>x. map (\<lambda>i. x ! i) idx) (dl_xs ld), Some (map (\<lambda>i. yv ! i) idx)),
                ld\<lparr>epochs_completed := epochs_completed ld + 1,
                   index_in_epoch := index_in_epoch ld + b - int (sample_n ld), dl_perm := p2\<rparr>, r2)"
      using next_batch_wrap [OF wf tr y sh i0 i1 True p1 p2 idx_def] .
    show ?thesis
      apply (rule exI [of _ ld], rule exI [of _ r], rule conjI [OF run])
      apply (simp only: st)
      using len True apply (simp add: xs pold Let_def idx_def [symmetric])
      by (simp add: idx_def)
  next
    case False
    then have nw: "index_in_epoch ld + b < int (sample_n ld)" by simp
    have b0: "0 \<le> b" using b1 by simp
    define idx where "idx = take (nat b) (drop (nat (index_in_epoch ld)) p1)"
    have len: "int (length idx) = b"
      using nw i0 b0 l1 by (simp add: min_def idx_def)
    have st: "next_batch shuf ld r b s =
           Inr ([], (map (\<lambda>x. map (\<lambda>i. x ! i) idx) (dl_xs ld), Some (map (\<lambda>i. yv ! i) idx)),
                ld\<lparr>index_in_epoch := index_in_epoch ld + b, dl_perm := p1\<rparr>, r1)"
      using next_batch_no_wrap [OF wf tr y sh i0 b0 nw p1] by (simp add: idx_def)
    show ?thesis
      apply (rule exI [of _ ld], rule exI [of _ r], rule conjI [OF run])
      apply (simp only: st)
      using len False by (simp add: xs)
  qed
qed



theorem next_batch_size_witness:
  "init [[10, 20, 30]] (Some [1, 2, 3]) False = Inr demo_loader \<and> shuffle_ok reverse_shuffle \<and>
   (\<exists>ld r bx by ld' r'. run_calls reverse_shuffle demo_loader () [(2, True)] = Inr (ld, r) \<and>
      next_batch reverse_shuffle ld r 2 True = Inr ([], (bx, Some by), ld', r') \<and>
      length bx = 1 \<and> int (length by) = 2)"
proof -
  have h1: "init [[10, 20, 30::nat]] (Some [1, 2, 3::nat]) False = Inr demo_loader"
    by (simp add: init_def demo_loader_def)
  have h2: "length [1, 2, 3::nat] = sample_n demo_loader"
    by (simp add: demo_loader_def)
  have h3: "shuffle_ok reverse_shuffle"
    by (simp add: shuffle_ok_def reverse_shuffle_def)
  have h4: "\<forall>c \<in> set [(2::int, True)]. 1 \<le> fst c \<and> fst c \<le> int (sample_n demo_loader)"
    by (simp add: demo_loader_def)
  have h5: "(1::int) \<le> 2" and h6: "(2::int) \<le> int (sample_n demo_loader)"
    by (simp_all add: demo_loader_def)
  from next_batch_size [OF h1 h2 h3 h4 h5 h6, of "()" True]
  show ?thesis using h1 h3 by auto
qed



lemma served_mod:
  assumes "served ld = t" "0 \<le> index_in_epoch ld" "index_in_epoch ld < int (sample_n ld)"
  shows "index_in_epoch ld = t mod int (sample_n ld)" "int (epochs_completed ld) = t div int (sample_n ld)"
proof -
  have e: "t = int (epochs_completed ld) * int (sample_n ld) + index_in_epoch ld"
    using assms(1) by (simp add: served_def)
  show "index_in_epoch ld = t mod int (sample_n ld)"
    using assms(2,3) by (simp add: e)
  show "int (epochs_completed ld) = t div int (sample_n ld)"
    using assms(2,3) by (simp add: e)
qed

lemma cyclic_window:
  assumes "i < n" "b \<le> n"
  shows "map (\<lambda>j. (i + j) mod n) [0..<b] =
           (if n \<le> i + b then drop i [0..<n] @ take (i + b - n) [0..<n]
            else take b (drop i [0..<n]))"
proof (cases "n \<le> i + b")
  case True
  have "map (\<lambda>j. (i + j) mod n) [0..<b] = [i..<n] @ [0..<i + b - n]"
  proof (rule nth_equalityI)
    show "length (map (\<lambda>j. (i + j) mod n) [0..<b]) = length ([i..<n] @ [0..<i + b - n])"
      using True assms by simp
  next
    fix k assume "k < length (map (\<lambda>j. (i + j) mod n) [0..<b])"
    then have k: "k < b" by simp
    show "map (\<lambda>j. (i + j) mod n) [0..<b] ! k = ([i..<n] @ [0..<i + b - n]) ! k"
    proof (cases "k < n - i")
      case True
      then show ?thesis using k assms by (simp add: nth_append)
    next
      case False
      then have ge: "n \<le> i + k" by simp
      have lt: "i + k - n < n" using k assms by simp
      have "(i + k) mod n = (i + k - n) mod n"
        using ge by (simp add: le_mod_geq)
      then have "(i + k) mod n = i + k - n"
        using lt by simp
      then show ?thesis using k False assms by (simp add: nth_append) 
    qed
  qed
  then show ?thesis using True assms by simp
next
  case False
  have "map (\<lambda>j. (i + j) mod n) [0..<b] = [i..<i + b]"
    using False by (intro nth_equalityI) simp_all
  then show ?thesis using False assms by (simp add: take_upt)
qed

lemma run_calls_unshuffled:
  assumes "train_inv ld" "shuffle_ok shuf"
    "\<forall>c \<in> set calls. 1 \<le> fst c \<and> fst c \<le> int (sample_n ld)"
    "\<forall>c \<in> set calls. \<not> snd c"
    "run_calls shuf ld rng calls = Inr (ld', r')"
  shows "dl_perm ld' = dl_perm ld \<and> r' = rng"
  using assms
proof (induction calls arbitrary: ld rng)
  case Nil
  then show ?case by simp
next
  case (Cons c cs)
  have ns: "\<not> snd c" using Cons.prems(4) by simp
  have wf: "loader_wf ld" and tr: "\<not> for_eval ld" and i0: "0 \<le> index_in_epoch ld"
    and i1: "index_in_epoch ld < int (sample_n ld)"
    using Cons.prems(1) by (auto simp: train_inv_def)
  obtain yv where y: "dl_y ld = Some yv"
    using wf tr by (auto simp: loader_wf_def)
  have b1: "1 \<le> fst c" and b2: "fst c \<le> int (sample_n ld)" using Cons.prems(3) by auto
  obtain batch ld1 r1 where
    st: "next_batch shuf ld rng (fst c) (snd c) = Inr ([], batch, ld1, r1)"
    and inv1: "train_inv ld1" and sd: "same_data ld ld1"
    using train_step [OF Cons.prems(1,2) b1 b2, of rng "snd c"] by auto
  have p1: "(if epochs_completed ld = 0 \<and> index_in_epoch ld = 0 \<and> snd c
              then shuf rng (dl_perm ld) else (dl_perm ld, rng)) = (dl_perm ld, rng)"
    using ns by simp
  have p2: "(if snd c then shuf rng (dl_perm ld) else (dl_perm ld, rng)) = (dl_perm ld, rng)"
    using ns by simp
  have same: "dl_perm ld1 = dl_perm ld \<and> r1 = rng"
  proof (cases "int (sample_n ld) \<le> index_in_epoch ld + fst c")
    case True
    from next_batch_wrap [OF wf tr y Cons.prems(2) i0 i1 True p1 p2 refl] st
    show ?thesis by auto
  next
    case False
    then have nw: "index_in_epoch ld + fst c < int (sample_n ld)" by simp
    have b0: "0 \<le> fst c" using b1 by simp
    from next_batch_no_wrap [OF wf tr y Cons.prems(2) i0 b0 nw p1] st
    show ?thesis by auto
  qed
  have c3: "\<forall>c \<in> set cs. 1 \<le> fst c \<and> fst c \<le> int (sample_n ld1)"
    using Cons.prems(3) sd by (simp add: same_data_def)
  have c4: "\<forall>c \<in> set cs. \<not> snd c" using Cons.prems(4) by simp
  have run: "run_calls shuf ld1 r1 cs = Inr (ld', r')"
    using Cons.prems(5) st by simp
  from Cons.IH [OF inv1 Cons.prems(2) c3 c4 run] same
  show ?case by simp
qed

lemma cyclic_indices:
  assumes i0: "0 \<le> i" and i1: "i < int n" and b0: "0 \<le> b" and b2: "b \<le> int n"
    and m: "i = t mod int n"
  shows "map (\<lambda>j. nat ((t + int j) mod int n)) [0..<nat b] =
         (if int n \<le> i + b then drop (nat i) [0..<n] @ take (nat (i + b - int n)) [0..<n]
          else take (nat b) (drop (nat i) [0..<n]))"
proof -
  have a: "nat i < n" "nat b \<le> n" using i0 i1 b0 b2 by auto
  have c: "(int n \<le> i + b) = (n \<le> nat i + nat b)" using i0 b0 by linarith
  have d: "nat (i + b - int n) = nat i + nat b - n" using i0 b0 by linarith
  have e: "\<And>j. nat ((t + int j) mod int n) = (nat i + j) mod n"
  proof -
    fix j
    have "(t + int j) mod int n = (i + int j) mod int n"
      unfolding m by (simp add: mod_add_left_eq)
    also have "\<dots> = int ((nat i + j) mod n)"
      using i0 by (simp add: zmod_int)
    finally show "nat ((t + int j) mod int n) = (nat i + j) mod n" by simp
  qed
  have "map (\<lambda>j. nat ((t + int j) mod int n)) [0..<nat b]
        = map (\<lambda>j. (nat i + j) mod n) [0..<nat b]"
    by (simp add: e)
  also have "\<dots> = (if n \<le> nat i + nat b then drop (nat i) [0..<n] @ take (nat i + nat b - n) [0..<n]
                             else take (nat b) (drop (nat i) [0..<n]))"
    by (rule cyclic_window [OF a])
  finally show ?thesis unfolding c d .
qed

lemma div_unique_int:
  assumes "0 \<le> r" "r < n" shows "(e * n + r) div n = (e::int)"
proof -
  have "n \<noteq> 0" using assms by auto
  then have "(e * n + r) div n = e + r div n" by simp
  then show ?thesis using assms by (simp add: div_pos_pos_trivial)
qed

lemma div_step:
  assumes "0 \<le> i" "i < n" "e * n + i = t" "(1::int) \<le> b" "b \<le> n"
  shows "(t + b) div n = e + (if n \<le> i + b then 1 else 0)"
proof (cases "n \<le> i + b")
  case True
  have eq: "t + b = (e + 1) * n + (i + b - n)" using assms(3) by (simp add: algebra_simps)
  have "0 \<le> i + b - n" "i + b - n < n" using True assms by auto
  then have "((e + 1) * n + (i + b - n)) div n = e + 1" by (rule div_unique_int)
  then have "(t + b) div n = e + 1" by (simp only: eq)
  then show ?thesis using True by simp
next
  case False
  have eq: "t + b = e * n + (i + b)" using assms(3) by simp
  have "0 \<le> i + b" "i + b < n" using False assms by auto
  then have "(e * n + (i + b)) div n = e" by (rule div_unique_int)
  then have "(t + b) div n = e" by (simp only: eq)
  then show ?thesis using False by simp
qed

lemma train_step_explicit:
  assumes inv: "train_inv ld" and sh: "shuffle_ok shuf" and y: "dl_y ld = Some yv"
    and b1: "1 \<le> b" and b2: "b \<le> int (sample_n ld)"
    and p1: "(if epochs_completed ld = 0 \<and> index_in_epoch ld = 0 \<and> s
              then shuf rng (dl_perm ld) else (dl_perm ld, rng)) = (p1, r1)"
    and p2: "(if s then shuf r1 p1 else (p1, r1)) = (p2, r2)"
    and w: "w = (int (sample_n ld) \<le> index_in_epoch ld + b)"
    and idx: "idx = (if w then drop (nat (index_in_epoch ld)) p1 @
                               take (nat (index_in_epoch ld + b - int (sample_n ld))) p2
                     else take (nat b) (drop (nat (index_in_epoch ld)) p1))"
  shows "\<exists>ld'. next_batch shuf ld rng b s =
            Inr ([], (map (\<lambda>x. map (\<lambda>i. x ! i) idx) (dl_xs ld), Some (map (\<lambda>i. yv ! i) idx)),
                 ld', if w then r2 else r1) \<and>
          dl_perm ld' = (if w then p2 else p1) \<and>
          epochs_completed ld' = epochs_completed ld + (if w then 1 else 0)"
proof -
  have wf: "loader_wf ld" and tr: "\<not> for_eval ld" and i0: "0 \<le> index_in_epoch ld"
    and i1: "index_in_epoch ld < int (sample_n ld)"
    using inv by (auto simp: train_inv_def)
  show ?thesis
  proof (cases w)
    case True
    then have t: "int (sample_n ld) \<le> index_in_epoch ld + b" using w by simp
    have i: "idx = drop (nat (index_in_epoch ld)) p1 @
                   take (nat (index_in_epoch ld + b - int (sample_n ld))) p2"
      using idx True by simp
    show ?thesis
      using next_batch_wrap [OF wf tr y sh i0 i1 t p1 p2 i] True by simp
  next
    case False
    then have nw: "index_in_epoch ld + b < int (sample_n ld)" using w by simp
    have b0: "0 \<le> b" using b1 by simp
    have i: "idx = take (nat b) (drop (nat (index_in_epoch ld)) p1)"
      using idx False by simp
    show ?thesis
      using next_batch_no_wrap [OF wf tr y sh i0 b0 nw p1] False by (simp add: i)
  qed
qed

text \<open>
  Claim C4. For a training loader built by \<^verbatim>\<open>__init__\<close>, after any history of calls with
  batch sizes between 1 and \<open>sample_n\<close>, one more such call with flag \<open>s\<close>:
  \<^item> completes an epoch exactly when \<open>_index_in_epoch + batch_size \<ge> sample_n\<close>, and
    \<open>epochs_completed\<close> grows by 1 on exactly those calls; it always equals the number of
    samples served divided by \<open>sample_n\<close>;
  \<^item> with \<open>s = False\<close> leaves the permutation and the random state as they were;
  \<^item> with \<open>s = True\<close>, when it is not the first call, leaves the permutation and the random
    state untouched unless it completes an epoch, and then shuffles once;
  \<^item> with \<open>s = True\<close>, when it is the first call, shuffles once before the first batch is
    read (the batch is read through the shuffled permutation), and once more if that
    call completes the epoch;
  \<^item> when no call ever shuffled, the permutation is still the identity, and the batch is the
    next \<open>batch_size\<close> samples in index order, cyclically.
\<close>

theorem shuffle_only_at_epoch_boundary:
  assumes i: "init xs (Some yv) False = Inr ld0"
    and ly: "length yv = sample_n ld0"
    and sh: "shuffle_ok shuf"
    and cs: "\<forall>c \<in> set calls. 1 \<le> fst c \<and> fst c \<le> int (sample_n ld0)"
    and b1: "1 \<le> b" and b2: "b \<le> int (sample_n ld0)"
    and n: "n = sample_n ld0" and t: "t = sum_list (map fst calls)"
  shows "\<exists>ld r printed bx lbl ld' r'.
     run_calls shuf ld0 r0 calls = Inr (ld, r) \<and>
     next_batch shuf ld r b s = Inr (printed, (bx, lbl), ld', r') \<and>
     epochs_completed ld' =
       epochs_completed ld + (if int n \<le> index_in_epoch ld + b then 1 else 0) \<and>
     int (epochs_completed ld) = t div int n \<and>
     int (epochs_completed ld') = (t + b) div int n \<and>
     (\<not> s \<longrightarrow> dl_perm ld' = dl_perm ld \<and> r' = r) \<and>
     (s \<and> calls \<noteq> [] \<and> index_in_epoch ld + b < int n \<longrightarrow> dl_perm ld' = dl_perm ld \<and> r' = r) \<and>
     (s \<and> calls \<noteq> [] \<and> int n \<le> index_in_epoch ld + b \<longrightarrow> (dl_perm ld', r') = shuf r (dl_perm ld)) \<and>
     (s \<and> calls = [] \<and> b < int n \<longrightarrow>
        (dl_perm ld', r') = shuf r0 [0..<n] \<and>
        bx = map (\<lambda>x. map (\<lambda>i. x ! i) (take (nat b) (dl_perm ld'))) xs) \<and>
     (s \<and> calls = [] \<and> b = int n \<longrightarrow>
        (dl_perm ld', r') = shuf (snd (shuf r0 [0..<n])) (fst (shuf r0 [0..<n])) \<and>
        bx = map (\<lambda>x. map (\<lambda>i. x ! i) (fst (shuf r0 [0..<n]))) xs) \<and>
     ((\<forall>c \<in> set calls. \<not> snd c) \<and> \<not> s \<longrightarrow>
        dl_perm ld = [0..<n] \<and>
        bx = map (\<lambda>x. map (\<lambda>j. x ! nat ((t + int j) mod int n)) [0..<nat b]) xs \<and>
        lbl = Some (map (\<lambda>j. yv ! nat ((t + int j) mod int n)) [0..<nat b]))"
proof -
  have n0: "0 < sample_n ld0" using b1 b2 by simp
  have inv0: "train_inv ld0" using init_train_inv [OF i ly n0] .
  obtain ld r where run: "run_calls shuf ld0 r0 calls = Inr (ld, r)" and inv: "train_inv ld"
    and sd: "same_data ld0 ld" and sv: "served ld = served ld0 + sum_list (map fst calls)"
    using run_calls_train [OF inv0 sh cs, of r0] by auto
  have nn: "sample_n ld = n" and xs: "dl_xs ld = xs" and y: "dl_y ld = Some yv"
    using sd init_fields [OF i] n by (auto simp: same_data_def)
  have i0: "0 \<le> index_in_epoch ld" and i1: "index_in_epoch ld < int n"
    using inv nn by (auto simp: train_inv_def)
  have b2': "b \<le> int (sample_n ld)" using b2 nn n by simp
  have tt: "served ld = t" using sv served_init [OF i] t by simp
  have tt': "int (epochs_completed ld) * int n + index_in_epoch ld = t"
    using tt nn by (simp add: served_def)
  define w where "w = (int (sample_n ld) \<le> index_in_epoch ld + b)"
  obtain p1 r1 where p1: "(if epochs_completed ld = 0 \<and> index_in_epoch ld = 0 \<and> s
              then shuf r (dl_perm ld) else (dl_perm ld, r)) = (p1, r1)"
    by (cases "(if epochs_completed ld = 0 \<and> index_in_epoch ld = 0 \<and> s
              then shuf r (dl_perm ld) else (dl_perm ld, r))") auto
  obtain p2 r2 where p2: "(if s then shuf r1 p1 else (p1, r1)) = (p2, r2)"
    by (cases "(if s then shuf r1 p1 else (p1, r1))") auto
  define idx where "idx = (if w then drop (nat (index_in_epoch ld)) p1 @
                               take (nat (index_in_epoch ld + b - int (sample_n ld))) p2
                     else take (nat b) (drop (nat (index_in_epoch ld)) p1))"
  obtain ld' where st: "next_batch shuf ld r b s =
            Inr ([], (map (\<lambda>x. map (\<lambda>i. x ! i) idx) xs, Some (map (\<lambda>i. yv ! i) idx)),
                 ld', if w then r2 else r1)"
    and pm: "dl_perm ld' = (if w then p2 else p1)"
    and ep: "epochs_completed ld' = epochs_completed ld + (if w then 1 else 0)"
    using train_step_explicit [OF inv sh y b1 b2' p1 p2 w_def idx_def] xs by auto
  have w: "w = (int n \<le> index_in_epoch ld + b)" using w_def nn by simp
  have A: "epochs_completed ld' =
       epochs_completed ld + (if int n \<le> index_in_epoch ld + b then 1 else 0)"
    using ep w by simp
  have B1: "int (epochs_completed ld) = t div int n"
    using served_mod(2) [OF tt] i0 i1 nn by simp
  have B2: "int (epochs_completed ld') = (t + b) div int n"
    using div_step [OF i0 i1 tt' b1] b2 n A by simp
  have first: "calls = [] \<Longrightarrow> ld = ld0 \<and> r = r0" using run by simp
  have later: "calls \<noteq> [] \<Longrightarrow> (p1, r1) = (dl_perm ld, r)"
  proof -
    assume ne: "calls \<noteq> []"
    from first_call_only [OF tt [unfolded t] ne _ i0] cs
    have "\<not> (epochs_completed ld = 0 \<and> index_in_epoch ld = 0)" by auto
    then show ?thesis using p1 by auto
  qed
  have C: "\<not> s \<longrightarrow> (if w then p2 else p1) = dl_perm ld \<and> (if w then r2 else r1) = r"
    using p1 p2 by auto
  have D: "s \<and> calls \<noteq> [] \<and> index_in_epoch ld + b < int n \<longrightarrow>
          (if w then p2 else p1) = dl_perm ld \<and> (if w then r2 else r1) = r"
    using later w by auto
  have E: "s \<and> calls \<noteq> [] \<and> int n \<le> index_in_epoch ld + b \<longrightarrow>
          ((if w then p2 else p1), (if w then r2 else r1)) = shuf r (dl_perm ld)"
    using later w p2 by auto
  have F: "s \<and> calls = [] \<and> b < int n \<longrightarrow>
        ((if w then p2 else p1), (if w then r2 else r1)) = shuf r0 [0..<n] \<and>
        idx = take (nat b) (if w then p2 else p1)"
  proof (intro impI)
    assume a: "s \<and> calls = [] \<and> b < int n"
    then have l: "ld = ld0" "r = r0" using first by auto
    have nw: "\<not> w" using a w l init_fields(4) [OF i] by simp
    have "(p1, r1) = shuf r0 [0..<n]"
      using p1 a l init_fields [OF i] n by simp
    then show "((if w then p2 else p1), (if w then r2 else r1)) = shuf r0 [0..<n] \<and>
        idx = take (nat b) (if w then p2 else p1)"
      using nw l init_fields(4) [OF i] by (simp add: idx_def)
  qed
  have G: "s \<and> calls = [] \<and> b = int n \<longrightarrow>
        ((if w then p2 else p1), (if w then r2 else r1)) = shuf (snd (shuf r0 [0..<n])) (fst (shuf r0 [0..<n])) \<and>
        idx = fst (shuf r0 [0..<n])"
  proof (intro impI)
    assume a: "s \<and> calls = [] \<and> b = int n"
    then have l: "ld = ld0" "r = r0" using first by auto
    have ww: "w" using a w l init_fields(4) [OF i] by simp
    have e1: "(p1, r1) = shuf r0 [0..<n]"
      using p1 a l init_fields [OF i] n by simp
    then have f: "p1 = fst (shuf r0 [0..<n])" "r1 = snd (shuf r0 [0..<n])"
      by (metis fst_conv, metis snd_conv)
    have "mset p1 = mset [0..<n]" using f shuffle_ok_fst [OF sh] by simp
    then have "length p1 = n" by (rule perm_length)
    then show "((if w then p2 else p1), (if w then r2 else r1)) = shuf (snd (shuf r0 [0..<n])) (fst (shuf r0 [0..<n])) \<and>
        idx = fst (shuf r0 [0..<n])"
      using ww p2 a f l init_fields(4) [OF i] nn by (simp add: idx_def)
  qed
  have H: "(\<forall>c \<in> set calls. \<not> snd c) \<and> \<not> s \<longrightarrow>
        dl_perm ld = [0..<n] \<and>
        idx = map (\<lambda>j. nat ((t + int j) mod int n)) [0..<nat b]"
  proof (intro impI)
    assume a: "(\<forall>c \<in> set calls. \<not> snd c) \<and> \<not> s"
    have "dl_perm ld = dl_perm ld0"
      using run_calls_unshuffled [OF inv0 sh cs _ run] a by simp
    then have pl: "dl_perm ld = [0..<n]" using init_fields(5) [OF i] n by simp
    have pp: "p1 = [0..<n]" "p2 = [0..<n]" using p1 p2 a pl by auto
    have m: "index_in_epoch ld = t mod int n"
      using served_mod(1) [OF tt] i0 i1 nn by simp
    have b0: "0 \<le> b" using b1 by simp
    have b2n: "b \<le> int n" using b2 n by simp
    have "idx = map (\<lambda>j. nat ((t + int j) mod int n)) [0..<nat b]"
      unfolding idx_def pp w nn
      using cyclic_indices [OF i0 i1 b0 b2n m] by simp
    then show "dl_perm ld = [0..<n] \<and>
        idx = map (\<lambda>j. nat ((t + int j) mod int n)) [0..<nat b]"
      using pl by simp
  qed
  have H': "(\<forall>c \<in> set calls. \<not> snd c) \<and> \<not> s \<longrightarrow>
        dl_perm ld = [0..<n] \<and>
        map (\<lambda>x. map (\<lambda>i. x ! i) idx) xs =
          map (\<lambda>x. map (\<lambda>j. x ! nat ((t + int j) mod int n)) [0..<nat b]) xs \<and>
        Some (map (\<lambda>i. yv ! i) idx) =
          Some (map (\<lambda>j. yv ! nat ((t + int j) mod int n)) [0..<nat b])"
    using H by (simp add: comp_def)
  have F': "s \<and> calls = [] \<and> b < int n \<longrightarrow>
        (dl_perm ld', if w then r2 else r1) = shuf r0 [0..<n] \<and>
        map (\<lambda>x. map (\<lambda>i. x ! i) idx) xs = map (\<lambda>x. map (\<lambda>i. x ! i) (take (nat b) (dl_perm ld'))) xs"
    using F pm by simp
  have G': "s \<and> calls = [] \<and> b = int n \<longrightarrow>
        (dl_perm ld', if w then r2 else r1) = shuf (snd (shuf r0 [0..<n])) (fst (shuf r0 [0..<n])) \<and>
        map (\<lambda>x. map (\<lambda>i. x ! i) idx) xs = map (\<lambda>x. map (\<lambda>i. x ! i) (fst (shuf r0 [0..<n]))) xs"
    using G pm by simp
  show ?thesis
    apply (rule exI [of _ ld], rule exI [of _ r], rule exI [of _ "[]"])
    apply (rule exI [of _ "map (\<lambda>x. map (\<lambda>i. x ! i) idx) xs"])
    apply (rule exI [of _ "Some (map (\<lambda>i. yv ! i) idx)"])
    apply (rule exI [of _ ld'], rule exI [of _ "if w then r2 else r1"])
    apply (intro conjI)
              apply (rule run)
             apply (rule st)
            apply (rule A)
           apply (rule B1)
          apply (rule B2)
         apply (simp only: pm, rule C)
        apply (simp only: pm, rule D)
       apply (simp only: pm, rule E)
      apply (rule F')
     apply (rule G')
    apply (rule H')
    done
qed

theorem shuffle_only_at_epoch_boundary_witness:
  "init [[10, 20, 30]] (Some [1, 2, 3]) False = Inr demo_loader \<and> shuffle_ok reverse_shuffle \<and>
   (\<exists>ld r printed bx lbl ld' r'.
      run_calls reverse_shuffle demo_loader () [(2, False)] = Inr (ld, r) \<and>
      next_batch reverse_shuffle ld r 2 False = Inr (printed, (bx, lbl), ld', r') \<and>
      bx = [[30, 10]] \<and> lbl = Some [3, 1] \<and>
      epochs_completed ld = 0 \<and> epochs_completed ld' = 1 \<and>
      dl_perm ld = [0, 1, 2] \<and> dl_perm ld' = dl_perm ld)"
proof -
  have h1: "init [[10, 20, 30::nat]] (Some [1, 2, 3::nat]) False = Inr demo_loader"
    by (simp add: init_def demo_loader_def)
  have h2: "length [1, 2, 3::nat] = sample_n demo_loader"
    by (simp add: demo_loader_def)
  have h3: "shuffle_ok reverse_shuffle"
    by (simp add: shuffle_ok_def reverse_shuffle_def)
  have h4: "\<forall>c \<in> set [(2::int, False)]. 1 \<le> fst c \<and> fst c \<le> int (sample_n demo_loader)"
    by (simp add: demo_loader_def)
  have h5: "(1::int) \<le> 2" and h6: "(2::int) \<le> int (sample_n demo_loader)"
    by (simp_all add: demo_loader_def)
  have h7: "(3::nat) = sample_n demo_loader" by (simp add: demo_loader_def)
  have h8: "(2::int) = sum_list (map fst [(2::int, False)])" by simp
  have u2: "[0..<2] = [0, Suc 0]" by (simp add: numeral_2_eq_2)
  have u3: "[0..<3] = [0, 1, 2]" by (simp add: numeral_3_eq_3 numeral_2_eq_2)
  note T = shuffle_only_at_epoch_boundary [OF h1 h2 h3 h4 h5 h6 h7 h8, of "()" False]
  have "\<exists>ld r printed bx lbl ld' r'.
      run_calls reverse_shuffle demo_loader () [(2, False)] = Inr (ld, r) \<and>
      next_batch reverse_shuffle ld r 2 False = Inr (printed, (bx, lbl), ld', r') \<and>
      bx = [[30, 10]] \<and> lbl = Some [3, 1] \<and>
      epochs_completed ld = 0 \<and> epochs_completed ld' = 1 \<and>
      dl_perm ld = [0, 1, 2] \<and> dl_perm ld' = dl_perm ld"
    using T apply (elim exE conjE)
    apply (intro exI conjI)
           apply assumption
          apply assumption
         apply (simp add: u2)
        apply (simp add: u2)
       apply simp
      apply simp
     apply (simp add: u3)
    apply simp
    done
  then show ?thesis using h1 h3 by blast
qed

lemma gathered_batch:
  assumes "xs \<noteq> []"
  shows "batch_rows (map (\<lambda>x. map (\<lambda>i. x ! i) idx) xs, Some (map (\<lambda>i. yv ! i) idx)) = length idx"
    "batch_uniform (map (\<lambda>x. map (\<lambda>i. x ! i) idx) xs, Some (map (\<lambda>i. yv ! i) idx))"
proof -
  show r: "batch_rows (map (\<lambda>x. map (\<lambda>i. x ! i) idx) xs, Some (map (\<lambda>i. yv ! i) idx)) = length idx"
    using assms by (cases xs) (simp_all add: batch_rows_def)
  show "batch_uniform (map (\<lambda>x. map (\<lambda>i. x ! i) idx) xs, Some (map (\<lambda>i. yv ! i) idx))"
    unfolding batch_uniform_def r by (simp add: list_all_iff)
qed

lemma train_step_served:
  assumes inv: "train_inv ld" and sh: "shuffle_ok shuf"
    and b1: "1 \<le> b" and b2: "b \<le> int (sample_n ld)"
  shows "\<exists>batch ld' r'. next_batch shuf ld rng b s = Inr ([], batch, ld', r') \<and>
           train_inv ld' \<and> same_data ld ld' \<and> served ld' = served ld + b \<and>
           int (batch_rows batch) = b \<and> batch_uniform batch"
proof -
  obtain batch ld' r' where st: "next_batch shuf ld rng b s = Inr ([], batch, ld', r')"
    and inv': "train_inv ld'" and sd: "same_data ld ld'" and sv: "served ld' = served ld + b"
    using train_step [OF inv sh b1 b2, of rng s] by blast
  have wf: "loader_wf ld" and i0: "0 \<le> index_in_epoch ld"
    and i1: "index_in_epoch ld < int (sample_n ld)"
    using inv by (auto simp: train_inv_def)
  obtain yv where y: "dl_y ld = Some yv"
    using inv by (auto simp: train_inv_def loader_wf_def)
  have ne: "dl_xs ld \<noteq> []" using wf by (simp add: loader_wf_def)
  obtain p1 r1 where p1: "(if epochs_completed ld = 0 \<and> index_in_epoch ld = 0 \<and> s
              then shuf rng (dl_perm ld) else (dl_perm ld, rng)) = (p1, r1)"
    by (cases "(if epochs_completed ld = 0 \<and> index_in_epoch ld = 0 \<and> s
              then shuf rng (dl_perm ld) else (dl_perm ld, rng))") auto
  obtain p2 r2 where p2: "(if s then shuf r1 p1 else (p1, r1)) = (p2, r2)"
    by (cases "(if s then shuf r1 p1 else (p1, r1))") auto
  have m1: "mset p1 = mset [0..<sample_n ld]"
    using p1 wf shuffle_ok_fst [OF sh, of rng "dl_perm ld"]
    by (auto simp: loader_wf_def split: if_splits)
  have m2: "mset p2 = mset [0..<sample_n ld]"
    using p2 m1 shuffle_ok_fst [OF sh, of r1 p1]
    by (auto split: if_splits)
  have l1: "length p1 = sample_n ld" and l2: "length p2 = sample_n ld"
    using perm_length [OF m1] perm_length [OF m2] by blast+
  define w where "w = (int (sample_n ld) \<le> index_in_epoch ld + b)"
  define idx where "idx = (if w then drop (nat (index_in_epoch ld)) p1 @
                               take (nat (index_in_epoch ld + b - int (sample_n ld))) p2
                     else take (nat b) (drop (nat (index_in_epoch ld)) p1))"
  obtain ld2 where st2: "next_batch shuf ld rng b s =
            Inr ([], (map (\<lambda>x. map (\<lambda>i. x ! i) idx) (dl_xs ld), Some (map (\<lambda>i. yv ! i) idx)),
                 ld2, if w then r2 else r1)"
    using train_step_explicit [OF inv sh y b1 b2 p1 p2 w_def idx_def] by blast
  have bt: "batch = (map (\<lambda>x. map (\<lambda>i. x ! i) idx) (dl_xs ld), Some (map (\<lambda>i. yv ! i) idx))"
    using st st2 by simp
  have len: "int (length idx) = b"
  proof (cases w)
    case True
    then show ?thesis
      using i0 i1 b2 l1 l2 by (simp add: idx_def w_def min_def)
  next
    case False
    then show ?thesis
      using i0 b1 l1 by (simp add: idx_def w_def min_def)
  qed
  have r: "int (batch_rows batch) = b" and u: "batch_uniform batch"
    unfolding bt using gathered_batch [OF ne, of idx yv] len by simp_all
  show ?thesis
    by (intro exI [of _ batch] exI [of _ ld'] exI [of _ r'] conjI st inv' sd sv r u)
qed

lemma run_batches_train:
  assumes "train_inv ld" "shuffle_ok shuf"
    "\<forall>c \<in> set calls. 1 \<le> fst c \<and> fst c \<le> int (sample_n ld)"
  shows "\<exists>bs ld' r'. run_batches shuf ld rng calls = Inr (bs, ld', r') \<and> train_inv ld' \<and>
           same_data ld ld' \<and>
           served ld' = served ld + int (sum_list (map batch_rows bs)) \<and>
           map (\<lambda>bt. int (batch_rows bt)) bs = map fst calls \<and>
           list_all batch_uniform bs"
  using assms
proof (induction calls arbitrary: ld rng)
  case Nil
  then show ?case by (simp add: same_data_def)
next
  case (Cons c cs)
  have b1: "1 \<le> fst c" and b2: "fst c \<le> int (sample_n ld)" using Cons.prems(3) by auto
  from train_step_served [OF Cons.prems(1,2) b1 b2, of rng "snd c"] obtain batch ld1 r1 where
    st: "next_batch shuf ld rng (fst c) (snd c) = Inr ([], batch, ld1, r1)"
    and inv1: "train_inv ld1" and sd: "same_data ld ld1" and sv: "served ld1 = served ld + fst c"
    and br: "int (batch_rows batch) = fst c" and bu: "batch_uniform batch"
    by blast
  have c3: "\<forall>c \<in> set cs. 1 \<le> fst c \<and> fst c \<le> int (sample_n ld1)"
    using Cons.prems(3) sd by (simp add: same_data_def)
  from Cons.IH [OF inv1 Cons.prems(2) c3, of r1] obtain bs ld' r' where
    run: "run_batches shuf ld1 r1 cs = Inr (bs, ld', r')" and inv': "train_inv ld'"
    and sd': "same_data ld1 ld'"
    and sv': "served ld' = served ld1 + int (sum_list (map batch_rows bs))"
    and rows: "map (\<lambda>bt. int (batch_rows bt)) bs = map fst cs"
    and un: "list_all batch_uniform bs"
    by blast
  have r0: "run_batches shuf ld rng (c # cs) = Inr (batch # bs, ld', r')"
    using st run by simp
  have s0: "same_data ld ld'" using sd sd' by (simp add: same_data_def)
  have v0: "served ld' = served ld + int (sum_list (map batch_rows (batch # bs)))"
    using sv sv' br by simp
  have m0: "map (\<lambda>bt. int (batch_rows bt)) (batch # bs) = map fst (c # cs)"
    using rows br by simp
  have u0: "list_all batch_uniform (batch # bs)" using un bu by simp
  show ?case
    by (intro exI [of _ "batch # bs"] exI [of _ ld'] exI [of _ r'] conjI r0 inv' s0 v0 m0 u0)
qed

text \<open>
  Claim C5. A training loader built by \<^verbatim>\<open>__init__\<close> is called with batch sizes between 1
  and \<open>sample_n\<close>; \<open>bs\<close> are the batches those calls returned and \<open>batch\<close> is the batch
  of one more such call. Every array and the label array of every batch hold
  \<open>batch_rows\<close> samples, and the batches hold the numbers of samples asked for. Before
  and after the last call \<open>0 \<le> _index_in_epoch < sample_n\<close>, and \<open>_index_in_epoch\<close> is the
  number of samples the batches handed out so far minus \<open>sample_n\<close> for each completed
  epoch: the number of samples of the current epoch already served. The empty history
  is the state after \<^verbatim>\<open>__init__\<close>.
\<close>

theorem index_in_epoch_invariant:
  assumes i: "init xs (Some yv) False = Inr ld0"
    and ly: "length yv = sample_n ld0"
    and sh: "shuffle_ok shuf"
    and cs: "\<forall>c \<in> set calls. 1 \<le> fst c \<and> fst c \<le> int (sample_n ld0)"
    and b1: "1 \<le> b" and b2: "b \<le> int (sample_n ld0)"
  shows "\<exists>bs ld r printed batch ld' r'.
           run_batches shuf ld0 r0 calls = Inr (bs, ld, r) \<and>
           next_batch shuf ld r b s = Inr (printed, batch, ld', r') \<and>
           list_all batch_uniform (bs @ [batch]) \<and>
           map (\<lambda>bt. int (batch_rows bt)) (bs @ [batch]) = map fst calls @ [b] \<and>
           sample_n ld = sample_n ld0 \<and> sample_n ld' = sample_n ld0 \<and>
           0 \<le> index_in_epoch ld \<and> index_in_epoch ld < int (sample_n ld0) \<and>
           index_in_epoch ld =
             int (sum_list (map batch_rows bs)) - int (epochs_completed ld) * int (sample_n ld0) \<and>
           index_in_epoch ld = int (sum_list (map batch_rows bs)) mod int (sample_n ld0) \<and>
           0 \<le> index_in_epoch ld' \<and> index_in_epoch ld' < int (sample_n ld0) \<and>
           index_in_epoch ld' =
             int (sum_list (map batch_rows (bs @ [batch])))
               - int (epochs_completed ld') * int (sample_n ld0) \<and>
           index_in_epoch ld' =
             int (sum_list (map batch_rows (bs @ [batch]))) mod int (sample_n ld0)"
proof -
  have n0: "0 < sample_n ld0" using b1 b2 by simp
  have inv0: "train_inv ld0" using init_train_inv [OF i ly n0] .
  obtain bs ld r where run: "run_batches shuf ld0 r0 calls = Inr (bs, ld, r)"
    and inv: "train_inv ld" and sd: "same_data ld0 ld"
    and sv: "served ld = served ld0 + int (sum_list (map batch_rows bs))"
    and rows: "map (\<lambda>bt. int (batch_rows bt)) bs = map fst calls"
    and un: "list_all batch_uniform bs"
    using run_batches_train [OF inv0 sh cs, of r0] by blast
  have n: "sample_n ld = sample_n ld0" using sd by (simp add: same_data_def)
  have b2': "b \<le> int (sample_n ld)" using b2 n by simp
  obtain batch ld' r' where st: "next_batch shuf ld r b s = Inr ([], batch, ld', r')"
    and inv': "train_inv ld'" and sd': "same_data ld ld'" and sv': "served ld' = served ld + b"
    and br: "int (batch_rows batch) = b" and bu: "batch_uniform batch"
    using train_step_served [OF inv sh b1 b2', of r s] by blast
  have n': "sample_n ld' = sample_n ld0" using sd' n by (simp add: same_data_def)
  have t: "served ld = int (sum_list (map batch_rows bs))" using sv served_init [OF i] by simp
  have t': "served ld' = int (sum_list (map batch_rows (bs @ [batch])))"
    using sv' t br by simp
  have q1: "0 \<le> index_in_epoch ld" "index_in_epoch ld < int (sample_n ld)"
    using inv by (auto simp: train_inv_def)
  have q2: "0 \<le> index_in_epoch ld'" "index_in_epoch ld' < int (sample_n ld')"
    using inv' by (auto simp: train_inv_def)
  have u: "list_all batch_uniform (bs @ [batch])" using un bu by simp
  have m: "map (\<lambda>bt. int (batch_rows bt)) (bs @ [batch]) = map fst calls @ [b]"
    using rows br by simp
  have e1: "index_in_epoch ld =
             int (sum_list (map batch_rows bs)) - int (epochs_completed ld) * int (sample_n ld0)"
    using t n by (simp add: served_def)
  have e2: "index_in_epoch ld' =
             int (sum_list (map batch_rows (bs @ [batch])))
               - int (epochs_completed ld') * int (sample_n ld0)"
    using t' n' by (simp add: served_def)
  have m1: "index_in_epoch ld = int (sum_list (map batch_rows bs)) mod int (sample_n ld0)"
    using served_mod(1) [OF t q1] n by simp
  have m2: "index_in_epoch ld' =
             int (sum_list (map batch_rows (bs @ [batch]))) mod int (sample_n ld0)"
    using served_mod(1) [OF t' q2] n' by simp
  have q1': "index_in_epoch ld < int (sample_n ld0)" using q1 n by simp
  have q2': "index_in_epoch ld' < int (sample_n ld0)" using q2 n' by simp
  show ?thesis
    by (intro exI [of _ bs] exI [of _ ld] exI [of _ r] exI [of _ "[]"] exI [of _ batch]
        exI [of _ ld'] exI [of _ r'] conjI run st u m n n' q1(1) q1' e1 m1 q2(1) q2' e2 m2)
qed

theorem index_in_epoch_invariant_witness:
  "init [[10, 20, 30]] (Some [1, 2, 3]) False = Inr demo_loader \<and> shuffle_ok reverse_shuffle \<and>
   (\<exists>bs ld r printed batch ld' r'.
      run_batches reverse_shuffle demo_loader () [(2, True), (3, False)] = Inr (bs, ld, r) \<and>
      next_batch reverse_shuffle ld r 2 True = Inr (printed, batch, ld', r') \<and>
      map batch_rows (bs @ [batch]) = [2, 3, 2] \<and>
      index_in_epoch ld = 2 \<and> index_in_epoch ld' = 1)"
proof -
  have h1: "init [[10, 20, 30::nat]] (Some [1, 2, 3::nat]) False = Inr demo_loader"
    by (simp add: init_def demo_loader_def)
  have h2: "length [1, 2, 3::nat] = sample_n demo_loader"
    by (simp add: demo_loader_def)
  have h3: "shuffle_ok reverse_shuffle"
    by (simp add: shuffle_ok_def reverse_shuffle_def)
  have h4: "\<forall>c \<in> set [(2::int, True), (3, False)]. 1 \<le> fst c \<and> fst c \<le> int (sample_n demo_loader)"
    by (simp add: demo_loader_def)
  have h5: "(1::int) \<le> 2" and h6: "(2::int) \<le> int (sample_n demo_loader)"
    by (simp_all add: demo_loader_def)
  note T = index_in_epoch_invariant [OF h1 h2 h3 h4 h5 h6, of "()" True]
  have "\<exists>bs ld r printed batch ld' r'.
      run_batches reverse_shuffle demo_loader () [(2, True), (3, False)] = Inr (bs, ld, r) \<and>
      next_batch reverse_shuffle ld r 2 True = Inr (printed, batch, ld', r') \<and>
      map batch_rows (bs @ [batch]) = [2, 3, 2] \<and>
      index_in_epoch ld = 2 \<and> index_in_epoch ld' = 1"
  proof -
    from T obtain bs ld r printed batch ld' r' where
      a: "run_batches reverse_shuffle demo_loader () [(2, True), (3, False)] = Inr (bs, ld, r)"
      and b: "next_batch reverse_shuffle ld r 2 True = Inr (printed, batch, ld', r')"
      and c: "map (\<lambda>bt. int (batch_rows bt)) (bs @ [batch]) = map fst [(2::int, True), (3, False)] @ [2]"
      and d: "index_in_epoch ld = int (sum_list (map batch_rows bs)) mod int (sample_n demo_loader)"
      and e: "index_in_epoch ld' =
               int (sum_list (map batch_rows (bs @ [batch]))) mod int (sample_n demo_loader)"
      by blast
    have "map int (map batch_rows (bs @ [batch])) = map int [2, 3, 2]"
      using c by (simp add: comp_def)
    then have c': "map batch_rows (bs @ [batch]) = [2, 3, 2]"
      using inj_on_map_eq_map [of int] by (metis inj_on_def of_nat_eq_iff)
    then have c2: "map batch_rows bs = [2, 3]" by (metis butlast_snoc map_butlast butlast.simps(2) list.distinct(1))
    have d': "index_in_epoch ld = 2" using d c2 by (simp add: demo_loader_def)
    have e': "index_in_epoch ld' = 1" using e c' by (simp add: demo_loader_def)
    show ?thesis by (intro exI conjI) (rule a, rule b, rule c', rule d', rule e')
  qed
  then show ?thesis using h1 h3 by blast
qed

section \<open>Claims on the loader in evaluation mode\<close>








section \<open>Claim on the label encoding\<close>

lemma py_index_found:
  "\<exists>t \<in> set tags. py_eq t x \<Longrightarrow>
   \<exists>k. py_index py_eq tags x = Inr k \<and> k < length tags \<and> py_eq (tags ! k) x"
proof (induction tags)
  case Nil
  then show ?case by simp
next
  case (Cons a tags)
  show ?case
  proof (cases "py_eq a x")
    case True
    then show ?thesis by simp
  next
    case False
    then have "\<exists>t \<in> set tags. py_eq t x" using Cons.prems by auto
    then obtain k where k: "py_index py_eq tags x = Inr k" "k < length tags" "py_eq (tags ! k) x"
      using Cons.IH by blast
    show ?thesis using False k by simp
  qed
qed

lemma collect_all_ok:
  "(\<And>x. x \<in> set xs \<Longrightarrow> \<exists>v. f x = Inr v \<and> P x v) \<Longrightarrow>
   \<exists>vs. collect (map f xs) = Inr vs \<and> list_all2 P xs vs"
proof (induction xs)
  case Nil
  then show ?case by simp
next
  case (Cons x xs)
  obtain v where v: "f x = Inr v" "P x v" using Cons.prems [of x] by auto
  obtain vs where vs: "collect (map f xs) = Inr vs" "list_all2 P xs vs"
    using Cons.IH Cons.prems by auto
  show ?case using v vs by simp
qed

lemma no_equal_pair_nth:
  "no_equal_pair py_eq tags \<Longrightarrow> i < length tags \<Longrightarrow> j < length tags \<Longrightarrow> i \<noteq> j \<Longrightarrow>
   \<not> py_eq (tags ! i) (tags ! j)"
proof (induction tags arbitrary: i j)
  case Nil
  then show ?case by simp
next
  case (Cons t ts)
  have a: "\<forall>u \<in> set ts. \<not> py_eq t u \<and> \<not> py_eq u t" and r: "no_equal_pair py_eq ts"
    using Cons.prems(1) by (auto simp: list_all_iff)
  show ?case
  proof (cases i)
    case 0
    then obtain j' where j: "j = Suc j'" using Cons.prems(4) by (cases j) auto
    then have "ts ! j' \<in> set ts" using Cons.prems(3) by simp
    then show ?thesis using a 0 j by simp
  next
    case (Suc i')
    show ?thesis
    proof (cases j)
      case 0
      have "ts ! i' \<in> set ts" using Cons.prems(2) Suc by simp
      then show ?thesis using a 0 Suc by simp
    next
      case (Suc j')
      then show ?thesis
        using Cons.IH [OF r, of i' j'] Cons.prems \<open>i = Suc i'\<close> by simp
    qed
  qed
qed

lemma no_equal_pair_distinct: "no_equal_pair (=) tags = distinct tags"
  by (induction tags) (auto simp: list_all_iff)

text \<open>
  Claim C8, for labels that compare equal to themselves. Whatever listing of the set
  \<^verbatim>\<open>list(set(label))\<close> gives, \<^verbatim>\<open>tag2int\<close> returns; \<open>tags\<close> lists labels of the sequence, no two
  of them equal, every label has an equal entry in \<open>tags\<close>, every entry of \<open>int_label\<close>
  is below \<open>len(tags)\<close>, and \<open>tags[int_label[i]] == label[i]\<close> at every position.
\<close>

theorem tag2int_roundtrip:
  assumes l: "set_listing py_eq (list_of_set label) label"
    and r: "\<forall>x \<in> set label. py_eq x x"
  shows "\<exists>int_label tags. tag2int py_eq list_of_set label = Inr (int_label, tags) \<and>
           no_equal_pair py_eq tags \<and>
           (\<forall>i j. i < length tags \<and> j < length tags \<and> i \<noteq> j \<longrightarrow> \<not> py_eq (tags ! i) (tags ! j)) \<and>
           set tags \<subseteq> set label \<and> (\<forall>x \<in> set label. \<exists>t \<in> set tags. py_eq t x) \<and>
           length int_label = length label \<and>
           (\<forall>i < length label. int_label ! i < length tags \<and>
                                py_eq (tags ! (int_label ! i)) (label ! i))"
proof -
  let ?tags = "list_of_set label"
  have sub: "set ?tags \<subseteq> set label"
    and cov: "\<forall>x \<in> set label. \<exists>t \<in> set ?tags. t = x \<or> py_eq t x"
    and nep: "no_equal_pair py_eq ?tags"
    using l by (auto simp: set_listing_def list_all_iff list_ex_iff)
  have cov': "\<forall>x \<in> set label. \<exists>t \<in> set ?tags. py_eq t x"
    using cov r by metis
  have "\<And>x. x \<in> set label \<Longrightarrow>
          \<exists>k. py_index py_eq ?tags x = Inr k \<and> (k < length ?tags \<and> py_eq (?tags ! k) x)"
    using py_index_found [of ?tags py_eq] cov' by simp
  then obtain ks where ks: "collect (map (\<lambda>x. py_index py_eq ?tags x) label) = Inr ks"
    and all: "list_all2 (\<lambda>x k. k < length ?tags \<and> py_eq (?tags ! k) x) label ks"
    using collect_all_ok [of label "\<lambda>x. py_index py_eq ?tags x"
        "\<lambda>x k. k < length ?tags \<and> py_eq (?tags ! k) x"]
    by blast
  have len: "length ks = length label" using all by (simp add: list_all2_lengthD)
  have nth: "\<forall>i < length label. ks ! i < length ?tags \<and> py_eq (?tags ! (ks ! i)) (label ! i)"
    using all by (simp add: list_all2_conv_all_nth)
  have g: "tag2int py_eq list_of_set label = Inr (ks, ?tags)"
    using ks by (simp add: tag2int_def)
  have pw: "\<forall>i j. i < length ?tags \<and> j < length ?tags \<and> i \<noteq> j \<longrightarrow> \<not> py_eq (?tags ! i) (?tags ! j)"
    using no_equal_pair_nth [OF nep] by blast
  show ?thesis
    by (intro exI [of _ ks] exI [of _ ?tags] conjI g nep pw sub cov' len nth)
qed

theorem tag2int_roundtrip_witness:
  "set_listing (=) (remdups [''b'', ''a'', ''b'']) [''b'', ''a'', ''b''] \<and>
   (\<exists>int_label tags. tag2int (=) remdups [''b'', ''a'', ''b''] = Inr (int_label, tags) \<and>
      distinct tags \<and> set tags \<subseteq> set [''b'', ''a'', ''b''] \<and> length int_label = 3 \<and>
      tags ! (int_label ! 0) = ''b'')"
proof -
  have h: "set_listing (=) (remdups [''b'', ''a'', ''b'']) [''b'', ''a'', ''b'']"
    by (simp add: set_listing_def)
  have r: "\<forall>x \<in> set [''b'', ''a'', ''b'']. x = x" by simp
  from tag2int_roundtrip [of "(=)" remdups, OF h r] obtain int_label tags where
    a: "tag2int (=) remdups [''b'', ''a'', ''b''] = Inr (int_label, tags)"
    and b: "no_equal_pair (=) tags" and c: "set tags \<subseteq> set [''b'', ''a'', ''b'']"
    and d: "length int_label = length [''b'', ''a'', ''b'']"
    and e: "\<forall>i < length [''b'', ''a'', ''b'']. int_label ! i < length tags \<and>
               tags ! (int_label ! i) = [''b'', ''a'', ''b''] ! i"
    by blast
  have b': "distinct tags" using b by (simp add: no_equal_pair_distinct)
  have d': "length int_label = 3" using d by simp
  have e': "tags ! (int_label ! 0) = ''b''" using e by simp
  show ?thesis by (intro conjI h exI [of _ int_label] exI [of _ tags] a b' c d' e')
qed

text \<open>
  The claim as stated, for every label sequence, fails on a NaN label: the set lists
  \<open>[NaN, 1, NaN]\<close> as it is (no two of its entries compare equal), and \<^verbatim>\<open>tags.index\<close>
  raises ValueError for the first label, which equals no entry of \<open>tags\<close>.
\<close>

theorem tag2int_nan_counterexample:
  "py_set_list np_eq [NaN, Num 1, NaN] = [NaN, Num 1, NaN] \<and>
   set_listing np_eq (py_set_list np_eq [NaN, Num 1, NaN]) [NaN, Num 1, NaN] \<and>
   tag2int np_eq (py_set_list np_eq) [NaN, Num 1, NaN] = Inl ValueError"
  by (simp add: py_set_list_def set_listing_def np_eq_def tag2int_def)

section \<open>Claim on the threshold adjacency\<close>

lemma sum_list_zip_sq:
  assumes "length p = length q"
  shows "sum_list (map (\<lambda>d. d ^ 2) (map (\<lambda>(a, b). a - b) (zip p q))) = (\<Sum>k < length p. (p ! k - q ! k) ^ 2)"
proof -
  have "map (\<lambda>d. d ^ 2) (map (\<lambda>(a, b). a - b) (zip p q)) = map (\<lambda>k. (p ! k - q ! k) ^ 2) [0..<length p]"
    using assms by (intro nth_equalityI) simp_all
  then show ?thesis by (simp add: sum_list_sum_nth atLeast0LessThan)
qed

lemma adjacency_array_length:
  "length (adjacency_array coordinate thr ex i) = length coordinate"
  by (simp add: adjacency_array_def Let_def)

lemma euclid_dist_sym:
  "length p = length q \<Longrightarrow> euclid_dist p q = euclid_dist q p"
  by (simp add: euclid_dist_def power2_commute)

lemma adjacency_array_nth:
  assumes "rectangular coordinate d" "i < length coordinate" "j < length coordinate"
  shows "adjacency_array coordinate thr ex i ! j =
           (euclid_dist (coordinate ! i) (coordinate ! j) < thr \<and> \<not> (ex \<and> i = j))"
proof -
  have l: "length (coordinate ! j) = length (coordinate ! i)"
    using assms by (simp add: rectangular_def)
  have "adjacency_array coordinate thr ex i ! j =
           (euclid_dist (coordinate ! j) (coordinate ! i) < thr \<and> \<not> (ex \<and> i = j))"
    using assms(2,3) sum_list_zip_sq [OF l]
    by (auto simp: adjacency_array_def Let_def euclid_dist_def nth_list_update)
  then show ?thesis
    by (simp only: euclid_dist_sym [OF l])
qed

lemma set_np_where: "set (np_where a) = {j. j < length a \<and> a ! j}"
  by (auto simp: np_where_def)

lemma set_cols_ok:
  assumes "i < fst (dok_shape A)" "\<forall>c \<in> set cols. c < snd (dok_shape A)"
  shows "\<exists>A'. set_cols A i cols = Inr A' \<and> dok_shape A' = dok_shape A \<and>
           (\<forall>a b. dok_entries A' (a, b) = ((a = i \<and> b \<in> set cols) \<or> dok_entries A (a, b)))"
  using assms
proof (induction cols arbitrary: A)
  case Nil
  then show ?case by simp
next
  case (Cons c cs)
  let ?A1 = "A\<lparr>dok_entries := (dok_entries A)((i, c) := True)\<rparr>"
  have s: "dok_set A i c True = Inr ?A1" using Cons.prems by (simp add: dok_set_def)
  have "i < fst (dok_shape ?A1)" "\<forall>c \<in> set cs. c < snd (dok_shape ?A1)"
    using Cons.prems by auto
  from Cons.IH [OF this] obtain A' where
    "set_cols ?A1 i cs = Inr A'" "dok_shape A' = dok_shape ?A1"
    "\<forall>a b. dok_entries A' (a, b) = ((a = i \<and> b \<in> set cs) \<or> dok_entries ?A1 (a, b))"
    by blast
  then show ?case using s by auto
qed

lemma adjacency_rows_ok:
  assumes "dok_shape A = (length coordinate, length coordinate)"
    "\<forall>i \<in> set is. i < length coordinate"
  shows "\<exists>A'. adjacency_rows coordinate thr ex A is = Inr A' \<and> dok_shape A' = dok_shape A \<and>
           (\<forall>a b. dok_entries A' (a, b) =
              ((a \<in> set is \<and> b < length coordinate \<and> adjacency_array coordinate thr ex a ! b)
               \<or> dok_entries A (a, b)))"
  using assms
proof (induction "is" arbitrary: A)
  case Nil
  then show ?case by simp
next
  case (Cons i "is")
  let ?cols = "np_where (adjacency_array coordinate thr ex i)"
  have c: "\<forall>c \<in> set ?cols. c < snd (dok_shape A)"
    using Cons.prems(1) by (simp add: set_np_where adjacency_array_length)
  have i: "i < fst (dok_shape A)" using Cons.prems by simp
  from set_cols_ok [OF i c] obtain A1 where
    s: "set_cols A i ?cols = Inr A1" and sh: "dok_shape A1 = dok_shape A"
    and e: "\<forall>a b. dok_entries A1 (a, b) = ((a = i \<and> b \<in> set ?cols) \<or> dok_entries A (a, b))"
    by blast
  have "dok_shape A1 = (length coordinate, length coordinate)" "\<forall>i \<in> set is. i < length coordinate"
    using sh Cons.prems by auto
  from Cons.IH [OF this] obtain A' where
    r: "adjacency_rows coordinate thr ex A1 is = Inr A'" and sh': "dok_shape A' = dok_shape A1"
    and e': "\<forall>a b. dok_entries A' (a, b) =
              ((a \<in> set is \<and> b < length coordinate \<and> adjacency_array coordinate thr ex a ! b)
               \<or> dok_entries A1 (a, b))"
    by blast
  have "\<forall>a b. dok_entries A' (a, b) =
              ((a \<in> set (i # is) \<and> b < length coordinate \<and> adjacency_array coordinate thr ex a ! b)
               \<or> dok_entries A (a, b))"
    using e e' by (auto simp: set_np_where adjacency_array_length)
  then show ?case using s r sh sh' by (simp add: Let_def)
qed

text \<open>
  Claim C3. For a coordinate array of \<open>sample_n\<close> points, \<^verbatim>\<open>get_adjacency\<close> returns a
  \<open>sample_n\<close> by \<open>sample_n\<close> matrix; entry \<open>(i, j)\<close> is True if and only if the Euclidean
  distance of the points \<open>i\<close> and \<open>j\<close> is strictly below the threshold, except that with
  \<^verbatim>\<open>exclude_self\<close> set every diagonal entry is False. No entry outside the shape is set.
\<close>

theorem get_adjacency_threshold:
  assumes "rectangular coordinate d"
  shows "\<exists>A. get_adjacency coordinate threshold_distance exclude_self = Inr A \<and>
           dok_shape A = (length coordinate, length coordinate) \<and>
           (\<forall>i < length coordinate. \<forall>j < length coordinate.
              dok_entries A (i, j) =
                (euclid_dist (coordinate ! i) (coordinate ! j) < threshold_distance \<and>
                 \<not> (exclude_self \<and> i = j))) \<and>
           (exclude_self \<longrightarrow> (\<forall>i. \<not> dok_entries A (i, i))) \<and>
           (\<forall>i j. dok_entries A (i, j) \<longrightarrow> i < length coordinate \<and> j < length coordinate)"
proof -
  let ?n = "length coordinate"
  have sh: "dok_shape (dok_new ?n ?n) = (?n, ?n)" by (simp add: dok_new_def)
  have r: "\<forall>i \<in> set [0..<?n]. i < ?n" by simp
  from adjacency_rows_ok [OF sh r, of threshold_distance exclude_self] obtain A where
    g: "adjacency_rows coordinate threshold_distance exclude_self (dok_new ?n ?n) [0..<?n] = Inr A"
    and s: "dok_shape A = (?n, ?n)"
    and e: "\<forall>a b. dok_entries A (a, b) =
              (a \<in> set [0..<?n] \<and> b < ?n \<and> adjacency_array coordinate threshold_distance exclude_self a ! b)"
    by (auto simp: dok_new_def)
  have e1: "\<forall>i < ?n. \<forall>j < ?n. dok_entries A (i, j) =
                (euclid_dist (coordinate ! i) (coordinate ! j) < threshold_distance \<and>
                 \<not> (exclude_self \<and> i = j))"
    using e adjacency_array_nth [OF assms] by simp
  have e2: "\<forall>i j. dok_entries A (i, j) \<longrightarrow> i < ?n \<and> j < ?n"
    using e by simp
  have e3: "exclude_self \<longrightarrow> (\<forall>i. \<not> dok_entries A (i, i))"
  proof (intro impI allI)
    fix i
    assume ex: exclude_self
    show "\<not> dok_entries A (i, i)"
    proof (cases "i < ?n")
      case True
      then show ?thesis using e1 ex by simp
    next
      case False
      then show ?thesis using e by simp
    qed
  qed
  show ?thesis
    unfolding get_adjacency_def Let_def
    by (intro exI [of _ A] conjI g s e1 e3 e2)
qed

lemma euclid_dist_345: "euclid_dist [0, 0] [3, 4] = 5"
proof -
  have "(\<Sum>k < length [0, 0 :: real]. ([0, 0 :: real] ! k - [3, 4] ! k) ^ 2) = 25"
    by (simp add: numeral_2_eq_2)
  moreover have "sqrt 25 = 5" by (rule real_sqrt_unique) simp_all
  ultimately show ?thesis by (simp only: euclid_dist_def)
qed

theorem get_adjacency_threshold_witness:
  "rectangular [[0, 0], [3, 4]] 2 \<and>
   (\<exists>A. get_adjacency [[0, 0], [3, 4]] 6 True = Inr A \<and> dok_shape A = (2, 2) \<and>
        dok_entries A (0, 1) \<and> dok_entries A (1, 0) \<and>
        \<not> dok_entries A (0, 0) \<and> \<not> dok_entries A (1, 1))"
proof -
  have h: "rectangular [[0, 0], [3, 4]] 2" by (simp add: rectangular_def)
  from get_adjacency_threshold [OF h, of 6 True] obtain A where
    g: "get_adjacency [[0, 0], [3, 4]] 6 True = Inr A"
    and s: "dok_shape A = (length [[0, 0], [3, 4 :: real]], length [[0, 0], [3, 4 :: real]])"
    and e: "\<forall>i < length [[0, 0], [3, 4 :: real]]. \<forall>j < length [[0, 0], [3, 4 :: real]].
              dok_entries A (i, j) =
                (euclid_dist ([[0, 0], [3, 4]] ! i) ([[0, 0], [3, 4]] ! j) < 6 \<and> \<not> (True \<and> i = j))"
    by blast
  have l: "length [[0, 0], [3, 4 :: real]] = 2" by simp
  have e01: "dok_entries A (0, 1)"
    using e [rule_format, of 0 1] by (simp add: euclid_dist_345)
  have e10: "dok_entries A (1, 0)"
    using e [rule_format, of 1 0] euclid_dist_sym [of "[3, 4]" "[0, 0]"]
    by (simp add: euclid_dist_345)
  have e00: "\<not> dok_entries A (0, 0)"
    using e [rule_format, of 0 0] by simp
  have e11: "\<not> dok_entries A (1, 1)"
    using e [rule_format, of 1 1] by simp
  show ?thesis using h g s e01 e10 e00 e11 by simp
qed

section \<open>Claim on the k-nearest-neighbour adjacency\<close>

lemma upt3: "[0..<3] = [0, 1, 2]"
  by (simp add: numeral_3_eq_3 numeral_2_eq_2)

lemma knn_distance_coincident:
  "i < 3 \<Longrightarrow> knn_distance [[0, 0], [0, 0], [0, 0]] i = Inr [0, 0, 0]"
  by (auto simp: knn_distance_def Let_def numeral_3_eq_3 less_Suc_eq)

lemma stable_argsort_zeros: "stable_argsort [0, 0, 0] = [0, 1, 2]"
  by (simp add: stable_argsort_def upt3)

lemma knn_distance_ok:
  assumes "rectangular coordinate d" "2 \<le> d" "i < length coordinate"
  shows "knn_distance coordinate i =
           Inr (map (\<lambda>row. sqrt ((row ! 0 - coordinate ! i ! 0) ^ 2 +
                                  (row ! 1 - coordinate ! i ! 1) ^ 2)) coordinate)"
proof -
  have li: "length (coordinate ! i) = d" using assms(1,3) by (simp add: rectangular_def)
  have "\<And>row. row \<in> set coordinate \<Longrightarrow> length row = d"
    using assms(1) by (simp add: rectangular_def)
  then show ?thesis
    using li assms(2) by (simp add: knn_distance_def Let_def list_all_iff)
qed

lemma argsort_ok_set: "argsort_ok argsort \<Longrightarrow> set (argsort ds) = {..<length ds}"
proof -
  assume "argsort_ok argsort"
  then have "mset (argsort ds) = mset [0..<length ds]" by (simp add: argsort_ok_def)
  then have "set (argsort ds) = set [0..<length ds]" by (rule mset_eq_setD)
  then show ?thesis by (simp add: atLeast0LessThan)
qed

lemma argsort_ok_distinct: "argsort_ok argsort \<Longrightarrow> distinct (argsort ds)"
proof -
  assume "argsort_ok argsort"
  then have "mset (argsort ds) = mset [0..<length ds]" by (simp add: argsort_ok_def)
  then show ?thesis by (metis distinct_upt mset_eq_imp_distinct_iff)
qed

lemma knearest_rows_ok:
  assumes sh: "dok_shape A = (length coordinate, length coordinate)"
    and bd: "\<forall>i \<in> set is. i < length coordinate" and di: "distinct is"
    and ok: "argsort_ok argsort" and re: "rectangular coordinate d" and d2: "2 \<le> d"
  shows "\<exists>A'. knearest_rows argsort coordinate k ex A is = Inr A' \<and> dok_shape A' = dok_shape A \<and>
           (\<forall>a b. dok_entries A' (a, b) =
              (if a \<in> set is
               then (b \<in> set (py_slice (argsort (map (\<lambda>row. sqrt ((row ! 0 - coordinate ! a ! 0) ^ 2 +
                                  (row ! 1 - coordinate ! a ! 1) ^ 2)) coordinate)) 0 k)
                      \<or> dok_entries A (a, b)) \<and> \<not> (ex \<and> b = a)
               else dok_entries A (a, b)))"
  using sh bd di
proof (induction "is" arbitrary: A)
  case Nil
  then show ?case by simp
next
  case (Cons i "is")
  let ?ds = "\<lambda>a. map (\<lambda>row. sqrt ((row ! 0 - coordinate ! a ! 0) ^ 2 +
                                  (row ! 1 - coordinate ! a ! 1) ^ 2)) coordinate"
  let ?cols = "\<lambda>a. py_slice (argsort (?ds a)) 0 k"
  have i: "i < length coordinate" using Cons.prems(2) by simp
  have kd: "knn_distance coordinate i = Inr (?ds i)" using knn_distance_ok [OF re d2 i] .
  have cs: "\<forall>c \<in> set (?cols i). c < snd (dok_shape A)"
    using py_slice_subset [of "argsort (?ds i)" 0 k] argsort_ok_set [OF ok, of "?ds i"] Cons.prems(1)
    by auto
  have i1: "i < fst (dok_shape A)" using i Cons.prems(1) by simp
  from set_cols_ok [OF i1 cs] obtain A1 where
    s1: "set_cols A i (?cols i) = Inr A1" and sh1: "dok_shape A1 = dok_shape A"
    and e1: "\<forall>a b. dok_entries A1 (a, b) = ((a = i \<and> b \<in> set (?cols i)) \<or> dok_entries A (a, b))"
    by blast
  define A2 where "A2 = (if ex then A1\<lparr>dok_entries := (dok_entries A1)((i, i) := False)\<rparr> else A1)"
  have s2: "(if ex then dok_set A1 i i False else Inr A1) = Inr A2"
    using i1 sh1 Cons.prems(1) by (simp add: A2_def dok_set_def)
  have sh2: "dok_shape A2 = (length coordinate, length coordinate)"
    using sh1 Cons.prems(1) by (simp add: A2_def)
  have e2: "\<forall>a b. dok_entries A2 (a, b) =
              (if a = i then (b \<in> set (?cols i) \<or> dok_entries A (a, b)) \<and> \<not> (ex \<and> b = a)
               else dok_entries A (a, b))"
    using e1 by (auto simp: A2_def)
  have p2: "\<forall>i \<in> set is. i < length coordinate" and p3: "distinct is" and ni: "i \<notin> set is"
    using Cons.prems by auto
  from Cons.IH [OF sh2 p2 p3] obtain A' where
    r: "knearest_rows argsort coordinate k ex A2 is = Inr A'" and sh': "dok_shape A' = dok_shape A2"
    and e': "\<forall>a b. dok_entries A' (a, b) =
              (if a \<in> set is
               then (b \<in> set (?cols a) \<or> dok_entries A2 (a, b)) \<and> \<not> (ex \<and> b = a)
               else dok_entries A2 (a, b))"
    by blast
  have run: "knearest_rows argsort coordinate k ex A (i # is) = Inr A'"
    using kd s1 s2 r by (simp add: Let_def)
  have shf: "dok_shape A' = dok_shape A" using sh' sh2 Cons.prems(1) by simp
  have ef: "\<forall>a b. dok_entries A' (a, b) =
              (if a \<in> set (i # is)
               then (b \<in> set (?cols a) \<or> dok_entries A (a, b)) \<and> \<not> (ex \<and> b = a)
               else dok_entries A (a, b))"
  proof (intro allI)
    fix a b
    show "dok_entries A' (a, b) =
              (if a \<in> set (i # is)
               then (b \<in> set (?cols a) \<or> dok_entries A (a, b)) \<and> \<not> (ex \<and> b = a)
               else dok_entries A (a, b))"
    proof (cases "a = i")
      case True
      then show ?thesis using e' e2 ni by simp
    next
      case False
      then show ?thesis using e' e2 by simp
    qed
  qed
  show ?case by (intro exI [of _ A'] conjI run shf ef)
qed

lemma count_members:
  assumes "distinct T" "set T \<subseteq> {..<n}"
  shows "length (filter (\<lambda>j. j \<in> set T) [0..<n]) = length T"
proof -
  have "length (filter (\<lambda>j. j \<in> set T) [0..<n]) = card ({j. j \<in> set T} \<inter> set [0..<n])"
    by (rule distinct_length_filter) simp
  also have "{j. j \<in> set T} \<inter> set [0..<n] = set T" using assms(2) by auto
  also have "card (set T) = length T" using assms(1) by (rule distinct_card)
  finally show ?thesis .
qed

lemma sorted_prefix_le:
  assumes "sorted (map f s)" "x \<in> set (take k s)" "y \<in> set s" "y \<notin> set (take k s)"
  shows "f x \<le> f y"
proof -
  have "s = take k s @ drop k s" by simp
  then have "y \<in> set (drop k s)" using assms(3,4) by (metis Un_iff set_append)
  moreover have "sorted (map f (take k s) @ map f (drop k s))"
    using assms(1) by (metis append_take_drop_id map_append)
  ultimately show ?thesis using assms(2) by (auto simp: sorted_append)
qed

text \<open>
  Without \<^verbatim>\<open>exclude_self\<close> the claim holds: every row has exactly \<open>nearest_k\<close> entries, and no
  point left out is closer (in the columns 0 and 1) than a point taken.
\<close>

lemma knearest_without_exclude_self:
  assumes ok: "argsort_ok argsort" and re: "rectangular coordinate d" and d2: "2 \<le> d"
    and k0: "0 \<le> k" and k1: "k \<le> int (length coordinate)"
  shows "\<exists>A. get_adjacency_knearest argsort coordinate k False = Inr A \<and>
           dok_shape A = (length coordinate, length coordinate) \<and>
           (\<forall>i < length coordinate. row_count A i = nat k \<and>
              (\<forall>j < length coordinate. \<forall>j' < length coordinate.
                 dok_entries A (i, j) \<longrightarrow> \<not> dok_entries A (i, j') \<longrightarrow>
                 sqrt ((coordinate ! j ! 0 - coordinate ! i ! 0) ^ 2 +
                       (coordinate ! j ! 1 - coordinate ! i ! 1) ^ 2)
                 \<le> sqrt ((coordinate ! j' ! 0 - coordinate ! i ! 0) ^ 2 +
                         (coordinate ! j' ! 1 - coordinate ! i ! 1) ^ 2)))"
proof -
  let ?n = "length coordinate"
  let ?ds = "\<lambda>a. map (\<lambda>row. sqrt ((row ! 0 - coordinate ! a ! 0) ^ 2 +
                                  (row ! 1 - coordinate ! a ! 1) ^ 2)) coordinate"
  let ?T = "\<lambda>a. take (nat k) (argsort (?ds a))"
  have sl: "\<And>a. py_slice (argsort (?ds a)) 0 k = ?T a"
    using py_slice_head [OF k0] by simp
  have sh: "dok_shape (dok_new ?n ?n) = (?n, ?n)" by (simp add: dok_new_def)
  have bd: "\<forall>i \<in> set [0..<?n]. i < ?n" by simp
  have di: "distinct [0..<?n]" by simp
  from knearest_rows_ok [OF sh bd di ok re d2, of k False] obtain A where
    run: "knearest_rows argsort coordinate k False (dok_new ?n ?n) [0..<?n] = Inr A"
    and sa0: "dok_shape A = dok_shape (dok_new ?n ?n)"
    and e0: "\<forall>a b. dok_entries A (a, b) =
              (if a \<in> set [0..<?n]
               then (b \<in> set (py_slice (argsort (?ds a)) 0 k)
                      \<or> dok_entries (dok_new ?n ?n) (a, b)) \<and> \<not> (False \<and> b = a)
               else dok_entries (dok_new ?n ?n) (a, b))"
    by blast
  have sa: "dok_shape A = (?n, ?n)" using sa0 sh by simp
  have e: "\<forall>a b. dok_entries A (a, b) = (a < ?n \<and> b \<in> set (?T a))"
    using e0 unfolding sl by (simp add: dok_new_def)
  have g: "get_adjacency_knearest argsort coordinate k False = Inr A"
    using run by (simp add: get_adjacency_knearest_def Let_def)
  have rows: "\<forall>i < ?n. row_count A i = nat k \<and>
              (\<forall>j < ?n. \<forall>j' < ?n.
                 dok_entries A (i, j) \<longrightarrow> \<not> dok_entries A (i, j') \<longrightarrow>
                 sqrt ((coordinate ! j ! 0 - coordinate ! i ! 0) ^ 2 +
                       (coordinate ! j ! 1 - coordinate ! i ! 1) ^ 2)
                 \<le> sqrt ((coordinate ! j' ! 0 - coordinate ! i ! 0) ^ 2 +
                         (coordinate ! j' ! 1 - coordinate ! i ! 1) ^ 2))"
  proof (intro allI impI conjI)
    fix i assume i: "i < ?n"
    have st: "set (argsort (?ds i)) = {..<?n}" using argsort_ok_set [OF ok, of "?ds i"] by simp
    have dt: "distinct (?T i)" using argsort_ok_distinct [OF ok] by simp
    have ss: "set (?T i) \<subseteq> {..<?n}"
      unfolding st [symmetric] by (rule set_take_subset)
    have "mset (argsort (?ds i)) = mset [0..<length (?ds i)]"
      using ok by (simp add: argsort_ok_def)
    then have "length (argsort (?ds i)) = length (?ds i)" by (rule perm_length)
    then have "length (argsort (?ds i)) = ?n" by simp
    then have lt: "length (?T i) = nat k" using k0 k1 by simp
    have "row_count A i = length (filter (\<lambda>j. j \<in> set (?T i)) [0..<?n])"
      using e i sa by (simp add: row_count_def)
    then show "row_count A i = nat k" using count_members [OF dt ss] lt by simp
  next
    fix i j j'
    assume i: "i < ?n" and j: "j < ?n" and j': "j' < ?n"
      and s: "dok_entries A (i, j)" and ns: "\<not> dok_entries A (i, j')"
    have st: "set (argsort (?ds i)) = {..<?n}" using argsort_ok_set [OF ok, of "?ds i"] by simp
    have so: "sorted (map (\<lambda>p. ?ds i ! p) (argsort (?ds i)))"
      using ok by (simp add: argsort_ok_def)
    have a: "j \<in> set (?T i)" using s e by simp
    have b: "j' \<in> set (argsort (?ds i))" using st j' by simp
    have c: "j' \<notin> set (?T i)" using ns e i by simp
    have "?ds i ! j \<le> ?ds i ! j'" using sorted_prefix_le [OF so a b c] .
    then show "sqrt ((coordinate ! j ! 0 - coordinate ! i ! 0) ^ 2 +
                       (coordinate ! j ! 1 - coordinate ! i ! 1) ^ 2)
                 \<le> sqrt ((coordinate ! j' ! 0 - coordinate ! i ! 0) ^ 2 +
                         (coordinate ! j' ! 1 - coordinate ! i ! 1) ^ 2)"
      using j j' by simp
  qed
  show ?thesis by (intro exI [of _ A] conjI g sa rows)
qed

text \<open>
  The distance of \<^verbatim>\<open>get_adjacency_knearest\<close> reads the columns 0 and 1 only. For the points
  \<open>(0,0,0)\<close>, \<open>(0,0,10)\<close>, \<open>(1,0,0)\<close> the neighbour chosen for point 0 is point 1, at
  distance 10, and not point 2, at distance 1.
\<close>

lemma knearest_third_column:
  "knearest_neighbours stable_argsort [[0, 0, 0], [0, 0, 10], [1, 0, 0]] 1 True =
     Inr [[1], [0], [0]] \<and>
   euclid_dist [0, 0, 0] [0, 0, 10] = 10 \<and> euclid_dist [0, 0, 0] [1, 0, 0] = 1"
proof -
  have d0: "knn_distance [[0, 0, 0], [0, 0, 10], [1, 0, 0]] 0 = Inr [0, 0, 1]"
    by (simp add: knn_distance_def Let_def)
  have d1: "knn_distance [[0, 0, 0], [0, 0, 10], [1, 0, 0]] (Suc 0) = Inr [0, 0, 1]"
    by (simp add: knn_distance_def Let_def)
  have d2: "knn_distance [[0, 0, 0], [0, 0, 10], [1, 0, 0]] (Suc (Suc 0)) = Inr [1, 1, 0]"
    by (simp add: knn_distance_def Let_def)
  have s0: "stable_argsort [0, 0, 1] = [0, 1, 2]" by (simp add: stable_argsort_def upt3)
  have s2: "stable_argsort [1, 1, 0] = [2, 0, 1]" by (simp add: stable_argsort_def upt3)
  have e1: "euclid_dist [0, 0, 0] [0, 0, 10] = 10"
  proof -
    have "(\<Sum>k < length [0, 0, 0 :: real]. ([0, 0, 0 :: real] ! k - [0, 0, 10] ! k) ^ 2) = 100"
      by (simp add: numeral_3_eq_3)
    moreover have "sqrt 100 = 10" by (rule real_sqrt_unique) simp_all
    ultimately show ?thesis by (simp only: euclid_dist_def)
  qed
  have e2: "euclid_dist [0, 0, 0] [1, 0, 0] = 1"
    by (simp add: euclid_dist_def numeral_3_eq_3)
  have "knearest_neighbours stable_argsort [[0, 0, 0], [0, 0, 10], [1, 0, 0]] 1 True =
          Inr [[1], [0], [0]]"
    by (simp add: knearest_neighbours_def get_adjacency_knearest_def Let_def upt3 d0 d1 d2 s0 s2
        py_slice_def slice_bound_def dok_set_def dok_new_def row_cols_def)
  then show ?thesis using e1 e2 by blast
qed

text \<open>
  Claim C2, evaluated where it fails. Three points at the same place, \<^verbatim>\<open>nearest_k = 1\<close>,
  \<^verbatim>\<open>exclude_self = True\<close>, so \<open>1 \<le> nearest_k < sample_n\<close>. The loop marks the first two
  positions of the argsort in every row and then clears the diagonal entry. All distances
  are 0, the argsort is \<open>[0, 1, 2]\<close> in every row, and row 2 does not contain its own
  point among the first two: clearing \<open>(2, 2)\<close> removes nothing and row 2 keeps two
  neighbours where the claim says exactly one.
\<close>

theorem knearest_coincident_points:
  "knearest_neighbours stable_argsort [[0, 0], [0, 0], [0, 0]] 1 True = Inr [[1], [0], [0, 1]]"
  by (simp add: knearest_neighbours_def get_adjacency_knearest_def Let_def upt3
      knn_distance_coincident stable_argsort_zeros py_slice_def slice_bound_def dok_set_def
      dok_new_def row_cols_def)

theorem knearest_coincident_points_witness:
  "\<exists>rows. knearest_neighbours stable_argsort [[0, 0], [0, 0], [0, 0]] 1 True = Inr rows \<and>
          length (rows ! 2) = 2"
  using knearest_coincident_points by simp

section \<open>Claims on the neighbourhood counts\<close>

lemma sum_indicator_card:
  "(\<Sum>k < (n::nat). if P k then (1::int) else 0) = int (card {k. k < n \<and> P k})"
proof (induction n)
  case 0
  then show ?case by simp
next
  case (Suc n)
  have s: "{k. k < Suc n \<and> P k} = (if P n then insert n {k. k < n \<and> P k} else {k. k < n \<and> P k})"
    by (auto simp: less_Suc_eq)
  have f: "finite {k. k < n \<and> P k}" by simp
  show ?case using Suc f by (simp add: s)
qed

lemma dot_count:
  assumes l: "length row = length B"
    and r: "\<forall>v \<in> set row. v = 0 \<or> v = 1"
    and b: "\<forall>k < length B. B ! k ! c = 0 \<or> B ! k ! c = 1"
  shows "sum_list (map (\<lambda>(a, brow). a * brow ! c) (zip row B)) =
           int (card {k. k < length B \<and> row ! k = 1 \<and> B ! k ! c = 1})"
proof -
  have "sum_list (map (\<lambda>(a, brow). a * brow ! c) (zip row B)) =
        (\<Sum>k < length B. row ! k * B ! k ! c)"
    using l by (simp add: sum_list_sum_nth atLeast0LessThan)
  also have "\<dots> = (\<Sum>k < length B. if row ! k = 1 \<and> B ! k ! c = 1 then 1 else 0)"
  proof (rule sum.cong)
    fix k assume "k \<in> {..<length B}"
    then have k: "k < length B" by simp
    then have "row ! k = 0 \<or> row ! k = 1" using r l by (metis nth_mem)
    moreover have "B ! k ! c = 0 \<or> B ! k ! c = 1" using b k by simp
    ultimately show "row ! k * B ! k ! c = (if row ! k = 1 \<and> B ! k ! c = 1 then 1 else 0)"
      by auto
  qed simp
  also have "\<dots> = int (card {k. k < length B \<and> row ! k = 1 \<and> B ! k ! c = 1})"
    by (rule sum_indicator_card)
  finally show ?thesis .
qed

lemma zero_one_nth:
  "zero_one A \<Longrightarrow> i < length A \<Longrightarrow> j < length (A ! i) \<Longrightarrow> A ! i ! j = 0 \<or> A ! i ! j = 1"
  unfolding zero_one_def by (meson nth_mem)

lemma mat_dot_count:
  assumes a: "is_matrix A n n" and a01: "zero_one A"
    and o: "is_matrix B n m" and o01: "zero_one B"
  shows "\<exists>C. mat_dot dt A B = Inr C \<and> length C = n \<and>
           (\<forall>i < n. length (C ! i) = m \<and>
              (\<forall>c < m. C ! i ! c =
                 np_cast dt (int (card {k. k < n \<and> A ! i ! k = 1 \<and> B ! k ! c = 1}))))"
proof -
  let ?w = "(case B of [] \<Rightarrow> 0 | b0 # bs \<Rightarrow> length b0)"
  let ?C = "map (\<lambda>row. map (\<lambda>c. np_cast dt
                                  (sum_list (map (\<lambda>(a, brow). a * brow ! c) (zip row B))))
                       [0..<?w]) A"
  have la: "length A = n" and lb: "length B = n"
    using a o by (auto simp: is_matrix_def)
  have ra: "\<forall>row \<in> set A. length row = n" using a by (simp add: is_matrix_def)
  have rb: "\<forall>row \<in> set B. length row = m" using o by (simp add: is_matrix_def)
  have d: "mat_dot dt A B = Inr ?C"
    using ra lb by (simp add: mat_dot_def list_all_iff)
  have w: "0 < n \<Longrightarrow> ?w = m"
    using lb rb by (cases B) auto
  have e: "\<forall>i < n. length (?C ! i) = m \<and>
              (\<forall>c < m. ?C ! i ! c =
                 np_cast dt (int (card {k. k < n \<and> A ! i ! k = 1 \<and> B ! k ! c = 1})))"
  proof (intro allI impI)
    fix i assume i: "i < n"
    then have n: "0 < n" by simp
    have li: "length (A ! i) = length B" using ra la lb i by simp
    have r01: "\<forall>v \<in> set (A ! i). v = 0 \<or> v = 1"
      using a01 la i unfolding zero_one_def by (meson nth_mem)
    have ent: "\<forall>c < m. ?C ! i ! c =
                 np_cast dt (int (card {k. k < n \<and> A ! i ! k = 1 \<and> B ! k ! c = 1}))"
    proof (intro allI impI)
      fix c assume c: "c < m"
      have b01: "\<forall>k < length B. B ! k ! c = 0 \<or> B ! k ! c = 1"
        using zero_one_nth [OF o01] rb c by simp
      show "?C ! i ! c = np_cast dt (int (card {k. k < n \<and> A ! i ! k = 1 \<and> B ! k ! c = 1}))"
        using dot_count [OF li r01 b01] i la c w [OF n] lb by simp
    qed
    show "length (?C ! i) = m \<and>
              (\<forall>c < m. ?C ! i ! c =
                 np_cast dt (int (card {k. k < n \<and> A ! i ! k = 1 \<and> B ! k ! c = 1})))"
      using ent i la w [OF n] by simp
  qed
  show ?thesis
    by (intro exI [of _ ?C] conjI d e) (simp add: la)
qed

lemma bits_positive: "0 < bits w"
  by (cases w) simp_all

lemma np_cast_holds:
  assumes "holds_count dt k"
  shows "np_cast dt (int k) = int k"
proof (cases dt)
  case NpBool
  then have "k = 0 \<or> k = 1" using assms by auto
  then show ?thesis using NpBool by auto
next
  case (NpUInt w)
  then have "k < 2 ^ bits w" using assms by simp
  then have "int k < int (2 ^ bits w)" by (simp only: of_nat_less_iff)
  then have "int k < 2 ^ bits w" by (simp only: of_nat_power of_nat_numeral)
  then have "int k mod 2 ^ bits w = int k" by (intro mod_pos_pos_trivial) simp_all
  then show ?thesis using NpUInt by (simp only: np_cast.simps)
next
  case (NpInt w)
  obtain b where b: "bits w = Suc b" using bits_positive [of w] by (cases "bits w") auto
  have "k < 2 ^ b" using assms NpInt b by simp
  then have "int k < int (2 ^ b)" by (simp only: of_nat_less_iff)
  then have lt: "int k < 2 ^ b" by (simp only: of_nat_power of_nat_numeral)
  have "(int k + 2 ^ b) mod 2 ^ Suc b = int k + 2 ^ b"
    using lt by (intro mod_pos_pos_trivial) simp_all
  then have "(int k + 2 ^ (bits w - 1)) mod 2 ^ bits w - 2 ^ (bits w - 1) = int k"
    by (simp only: b diff_Suc_1)
  then show ?thesis using NpInt by (simp only: np_cast.simps)
next
  case NpFloat64
  then show ?thesis by simp
qed

lemma zero_diagonal_length: "length (zero_diagonal A) = length A"
  by (simp add: zero_diagonal_def)

lemma zero_diagonal_row:
  "i < length A \<Longrightarrow> zero_diagonal A ! i = (A ! i)[i := 0]"
  by (simp add: zero_diagonal_def)

lemma zero_diagonal_matrix:
  "is_matrix A n m \<Longrightarrow> is_matrix (zero_diagonal A) n m"
  by (auto simp: is_matrix_def zero_diagonal_def set_zip)

lemma zero_diagonal_zero_one:
  assumes z: "zero_one A"
  shows "zero_one (zero_diagonal A)"
  unfolding zero_one_def
proof (intro ballI)
  fix row v
  assume "row \<in> set (zero_diagonal A)" and v: "v \<in> set row"
  then obtain i where i: "i < length A" and row: "row = (A ! i)[i := 0]"
    by (auto simp: in_set_conv_nth zero_diagonal_length zero_diagonal_row)
  have "set ((A ! i)[i := 0]) \<subseteq> insert 0 (set (A ! i))" by (rule set_update_subset_insert)
  then have "v = 0 \<or> v \<in> set (A ! i)" using v row by auto
  then show "v = 0 \<or> v = 1" using z i unfolding zero_one_def by (meson nth_mem)
qed

lemma zero_diagonal_entry:
  assumes "is_matrix A n n" "i < n" "k < n"
  shows "zero_diagonal A ! i ! k = (if k = i then 0 else A ! i ! k)"
  using assms by (simp add: zero_diagonal_row is_matrix_def nth_list_update)

lemma np_unique_length:
  assumes "set lab = int ` {..<m}"
  shows "length (np_unique lab) = m"
proof -
  have "length (np_unique lab) = card (set lab)"
    by (simp add: np_unique_def length_remdups_card_conv)
  also have "\<dots> = m" using assms by (simp add: card_image)
  finally show ?thesis .
qed

lemma one_hot_rows_ok:
  assumes "set lab = int ` {..<m}"
  shows "one_hot_rows m lab = Inr (map (\<lambda>c. (replicate m 0)[nat c := 1]) lab)"
  unfolding one_hot_rows_def
proof (rule collect_map_ok)
  fix c assume "c \<in> set lab"
  then have "0 \<le> c \<and> c < int m" using assms by auto
  then show "(case py_wrap_index m c of Inl e \<Rightarrow> Inl e
              | Inr k \<Rightarrow> Inr ((replicate m 0)[k := 1])) = Inr ((replicate m 0)[nat c := 1])"
    by (simp add: py_wrap_index_def)
qed

lemma one_hot_matrix:
  assumes "length lab = n" "set lab = int ` {..<m}"
  shows "is_matrix (map (\<lambda>c. (replicate m (0::int))[nat c := 1]) lab) n m"
    "zero_one (map (\<lambda>c. (replicate m (0::int))[nat c := 1]) lab)"
    "\<forall>j < n. \<forall>c < m. (map (\<lambda>c. (replicate m (0::int))[nat c := 1]) lab ! j ! c = 1) = (lab ! j = int c)"
proof -
  show "is_matrix (map (\<lambda>c. (replicate m (0::int))[nat c := 1]) lab) n m"
    using assms by (simp add: is_matrix_def)
  show "zero_one (map (\<lambda>c. (replicate m (0::int))[nat c := 1]) lab)"
    unfolding zero_one_def
  proof (intro ballI)
    fix row v
    assume "row \<in> set (map (\<lambda>c. (replicate m (0::int))[nat c := 1]) lab)" and v: "v \<in> set row"
    then obtain c where row: "row = (replicate m 0)[nat c := 1]" by auto
    have "set ((replicate m (0::int))[nat c := 1]) \<subseteq> insert 1 (set (replicate m 0))"
      by (rule set_update_subset_insert)
    then show "v = 0 \<or> v = 1" using v row by auto
  qed
  show "\<forall>j < n. \<forall>c < m. (map (\<lambda>c. (replicate m (0::int))[nat c := 1]) lab ! j ! c = 1) = (lab ! j = int c)"
  proof (intro allI impI)
    fix j c assume j: "j < n" and c: "c < m"
    have "lab ! j \<in> set lab" using j assms(1) by simp
    then have r: "0 \<le> lab ! j" "nat (lab ! j) < m" using assms(2) by auto
    have "(replicate m (0::int))[nat (lab ! j) := 1] ! c = (if nat (lab ! j) = c then 1 else 0)"
      using r c by (simp add: nth_list_update)
    moreover have "(nat (lab ! j) = c) = (lab ! j = int c)" using r by auto
    ultimately show "(map (\<lambda>c. (replicate m (0::int))[nat c := 1]) lab ! j ! c = 1) = (lab ! j = int c)"
      using j assms(1) by simp
  qed
qed

lemma neighbourhood_count_core:
  assumes a: "is_matrix (mats st adjacency) n n" and a01: "zero_one (mats st adjacency)"
    and l: "label_ok st label n m" and s: "separate adjacency label"
    and st': "st' = (if exclude_self
                     then st\<lparr>mats := (mats st)(adjacency := zero_diagonal (mats st adjacency))\<rparr>
                     else st)"
  shows "\<exists>nb_count. get_neighbourhood_count st adjacency label exclude_self =
                       Inr ((dot_dtype st adjacency label, nb_count), st') \<and>
           length nb_count = n \<and>
           (\<forall>i < n. length (nb_count ! i) = m \<and>
              (\<forall>c < m. nb_count ! i ! c =
                 np_cast (dot_dtype st adjacency label)
                   (int (card {j. j < n \<and> mats st adjacency ! i ! j = 1 \<and>
                                  (exclude_self \<longrightarrow> j \<noteq> i) \<and> has_label st label j c}))))"
proof -
  let ?A = "mats st adjacency"
  let ?dt = "dot_dtype st adjacency label"
  define A' where "A' = (if exclude_self then zero_diagonal ?A else ?A)"
  define OH where "OH = (case label of One_hot l \<Rightarrow> mats st l
                         | Integer_encoded l \<Rightarrow> map (\<lambda>c. (replicate m (0::int))[nat c := 1]) (vecs st l))"
  have la: "length ?A = n" and ra: "\<forall>row \<in> set ?A. length row = n"
    using a by (auto simp: is_matrix_def)
  have lr: "label_rows st label = n"
    using l by (cases label) (auto simp: label_ok_def label_rows_def is_matrix_def)
  have A'm: "is_matrix A' n n" and A'01: "zero_one A'"
    using a a01 by (auto simp: A'_def zero_diagonal_matrix zero_diagonal_zero_one)
  have A'e: "\<forall>i < n. \<forall>k < n. (A' ! i ! k = 1) = (?A ! i ! k = 1 \<and> (exclude_self \<longrightarrow> k \<noteq> i))"
    using zero_diagonal_entry [OF a] by (auto simp: A'_def)
  have OHm: "is_matrix OH n m" and OH01: "zero_one OH"
    and OHe: "\<forall>j < n. \<forall>c < m. (OH ! j ! c = 1) = has_label st label j c"
    using l one_hot_matrix [of _ n m]
    by (cases label; simp add: OH_def label_ok_def has_label_def)+
  have A'st: "mats st' adjacency = A'" using st' by (simp add: A'_def)
  have ty: "mat_dtype st' = mat_dtype st" using st' by simp
  from mat_dot_count [OF A'm A'01 OHm OH01, of ?dt] obtain C where
    d: "mat_dot ?dt A' OH = Inr C" and lc: "length C = n"
    and e: "\<forall>i < n. length (C ! i) = m \<and>
              (\<forall>c < m. C ! i ! c =
                 np_cast ?dt (int (card {k. k < n \<and> A' ! i ! k = 1 \<and> OH ! k ! c = 1})))"
    by blast
  have g: "get_neighbourhood_count st adjacency label exclude_self = Inr ((?dt, C), st')"
  proof (cases label)
    case (One_hot lb)
    then have ne: "lb \<noteq> adjacency" using s by (simp add: separate_def)
    have d': "mat_dot (promote (mat_dtype st adjacency) (mat_dtype st lb)) A' (mats st lb) = Inr C"
      using d One_hot by (simp add: dot_dtype_def OH_def)
    show ?thesis
      using One_hot lr la ra ne st' d'
      by (cases exclude_self)
        (simp_all add: get_neighbourhood_count_def Let_def list_all_iff A'_def dot_dtype_def)
  next
    case (Integer_encoded lb)
    then have sl: "set (vecs st lb) = int ` {..<m}" using l by (simp add: label_ok_def)
    have d': "mat_dot (promote (mat_dtype st adjacency) NpFloat64) A'
                (map (\<lambda>c. (replicate m (0::int))[nat c := 1]) (vecs st lb)) = Inr C"
      using d Integer_encoded by (simp add: dot_dtype_def OH_def)
    show ?thesis
      using Integer_encoded lr la ra np_unique_length [OF sl] one_hot_rows_ok [OF sl] st' d'
      by (cases exclude_self)
        (simp_all add: get_neighbourhood_count_def Let_def list_all_iff A'_def
          label_values_def dot_dtype_def)
  qed
  have e': "\<forall>i < n. length (C ! i) = m \<and>
              (\<forall>c < m. C ! i ! c =
                 np_cast ?dt
                   (int (card {j. j < n \<and> ?A ! i ! j = 1 \<and> (exclude_self \<longrightarrow> j \<noteq> i) \<and>
                                  has_label st label j c})))"
  proof (intro allI impI conjI)
    fix i assume "i < n"
    then show "length (C ! i) = m" using e by simp
  next
    fix i c assume i: "i < n" and c: "c < m"
    have "{k. k < n \<and> A' ! i ! k = 1 \<and> OH ! k ! c = 1} =
          {j. j < n \<and> ?A ! i ! j = 1 \<and> (exclude_self \<longrightarrow> j \<noteq> i) \<and> has_label st label j c}"
      using A'e OHe i c by auto
    then show "C ! i ! c =
                 np_cast ?dt
                   (int (card {j. j < n \<and> ?A ! i ! j = 1 \<and> (exclude_self \<longrightarrow> j \<noteq> i) \<and>
                                  has_label st label j c}))"
      using e i c by simp
  qed
  show ?thesis
    by (intro exI [of _ C] conjI g lc e')
qed

text \<open>
  Claim C6, for integer codes that are the numbers below \<open>m\<close> and with the number type of
  the product. For an \<open>n\<close> by \<open>n\<close> 0-1 adjacency matrix and a label argument for \<open>n\<close>
  samples and \<open>m\<close> label types (a one-hot matrix in an array of its own, or integer codes
  that are exactly the numbers below \<open>m\<close>), \<^verbatim>\<open>get_neighbourhood_count\<close> returns an \<open>n\<close> by \<open>m\<close>
  matrix in the number type of the product. Its entry \<open>(i, c)\<close> is what that type holds
  of the number of samples \<open>j\<close> adjacent to \<open>i\<close> with label \<open>c\<close>, where \<open>j = i\<close> is left
  out when \<^verbatim>\<open>exclude_self\<close> is set, whatever the diagonal entry was: the number itself
  whenever the type holds it, which float64 always does.
\<close>

theorem neighbourhood_count_entries:
  assumes "is_matrix (mats st adjacency) n n" and "zero_one (mats st adjacency)"
    and "label_ok st label n m" and "separate adjacency label"
  shows "\<exists>nb_count st'.
           get_neighbourhood_count st adjacency label exclude_self =
             Inr ((dot_dtype st adjacency label, nb_count), st') \<and>
           length nb_count = n \<and>
           (\<forall>i < n. length (nb_count ! i) = m \<and>
              (\<forall>c < m.
                 nb_count ! i ! c =
                   np_cast (dot_dtype st adjacency label)
                     (int (card {j. j < n \<and> mats st adjacency ! i ! j = 1 \<and>
                                    (exclude_self \<longrightarrow> j \<noteq> i) \<and> has_label st label j c})) \<and>
                 (holds_count (dot_dtype st adjacency label)
                    (card {j. j < n \<and> mats st adjacency ! i ! j = 1 \<and>
                              (exclude_self \<longrightarrow> j \<noteq> i) \<and> has_label st label j c}) \<longrightarrow>
                  nb_count ! i ! c =
                    int (card {j. j < n \<and> mats st adjacency ! i ! j = 1 \<and>
                                  (exclude_self \<longrightarrow> j \<noteq> i) \<and> has_label st label j c}))))"
proof -
  from neighbourhood_count_core [OF assms refl, of exclude_self] obtain nb_count st' where
    g: "get_neighbourhood_count st adjacency label exclude_self =
          Inr ((dot_dtype st adjacency label, nb_count), st')"
    and lc: "length nb_count = n"
    and e: "\<forall>i < n. length (nb_count ! i) = m \<and>
              (\<forall>c < m. nb_count ! i ! c =
                 np_cast (dot_dtype st adjacency label)
                   (int (card {j. j < n \<and> mats st adjacency ! i ! j = 1 \<and>
                                  (exclude_self \<longrightarrow> j \<noteq> i) \<and> has_label st label j c})))"
    by blast
  have e': "\<forall>i < n. length (nb_count ! i) = m \<and>
              (\<forall>c < m.
                 nb_count ! i ! c =
                   np_cast (dot_dtype st adjacency label)
                     (int (card {j. j < n \<and> mats st adjacency ! i ! j = 1 \<and>
                                    (exclude_self \<longrightarrow> j \<noteq> i) \<and> has_label st label j c})) \<and>
                 (holds_count (dot_dtype st adjacency label)
                    (card {j. j < n \<and> mats st adjacency ! i ! j = 1 \<and>
                              (exclude_self \<longrightarrow> j \<noteq> i) \<and> has_label st label j c}) \<longrightarrow>
                  nb_count ! i ! c =
                    int (card {j. j < n \<and> mats st adjacency ! i ! j = 1 \<and>
                                  (exclude_self \<longrightarrow> j \<noteq> i) \<and> has_label st label j c})))"
    using e np_cast_holds by simp
  show ?thesis
    by (intro exI [of _ nb_count] exI [of _ st'] conjI g lc e')
qed

lemma demo_store_ok:
  "is_matrix (mats demo_store 0) 3 3" "zero_one (mats demo_store 0)"
  "label_ok demo_store (One_hot 1) 3 2" "separate 0 (One_hot 1)"
  by (simp_all add: demo_store_def is_matrix_def zero_one_def label_ok_def separate_def)

theorem neighbourhood_count_entries_witness:
  "is_matrix (mats demo_store 0) 3 3 \<and> zero_one (mats demo_store 0) \<and>
   label_ok demo_store (One_hot 1) 3 2 \<and> separate 0 (One_hot 1) \<and>
   (\<exists>nb_count st'. get_neighbourhood_count demo_store 0 (One_hot 1) True =
                       Inr ((NpFloat64, nb_count), st') \<and>
      length nb_count = 3 \<and> length (nb_count ! 1) = 2 \<and>
      nb_count = [[0, 1], [2, 0], [0, 1]])"
proof -
  have t: "dot_dtype demo_store 0 (One_hot 1) = NpFloat64"
    by (simp add: dot_dtype_def demo_store_def)
  have v: "get_neighbourhood_count demo_store 0 (One_hot 1) True =
             Inr ((NpFloat64, [[0, 1], [2, 0], [0, 1]]),
                  demo_store\<lparr>mats := (mats demo_store)(0 := zero_diagonal (mats demo_store 0))\<rparr>)"
    by (simp add: get_neighbourhood_count_def Let_def label_rows_def demo_store_def
        zero_diagonal_def mat_dot_def numeral_3_eq_3 numeral_2_eq_2)
  from neighbourhood_count_entries [OF demo_store_ok, of True]
  have "\<exists>nb_count st'. get_neighbourhood_count demo_store 0 (One_hot 1) True =
                          Inr ((NpFloat64, nb_count), st') \<and>
      length nb_count = 3 \<and> length (nb_count ! 1) = 2 \<and>
      nb_count = [[0, 1], [2, 0], [0, 1]]"
    unfolding t
    apply (elim exE conjE)
    apply (intro exI conjI)
       apply assumption
      apply assumption
     apply simp
    apply (use v in simp)
    done
  then show ?thesis using demo_store_ok by blast
qed

text \<open>
  The claim as stated, for every 0-1 adjacency matrix and every label vector, fails in
  two ways. With arrays of bool the product is an or: sample 1 is adjacent to samples 0
  and 2, both of label 0, and the entry \<open>(1, 0)\<close> of the result is 1, not 2. With the
  integer codes 0, 2, 0 the one-hot matrix has two columns and the code 2 indexes a
  third: the call raises IndexError and returns no matrix.
\<close>

theorem neighbourhood_count_counterexample:
  "get_neighbourhood_count bool_store 0 (One_hot 1) False =
     Inr ((NpBool, [[1, 1], [1, 1], [1, 1]]), bool_store) \<and>
   mats bool_store 0 ! 1 ! 0 = 1 \<and> has_label bool_store (One_hot 1) 0 0 \<and>
   mats bool_store 0 ! 1 ! 2 = 1 \<and> has_label bool_store (One_hot 1) 2 0 \<and>
   get_neighbourhood_count gap_store 0 (Integer_encoded 0) False = Inl IndexError"
  by (simp add: get_neighbourhood_count_def Let_def label_rows_def demo_store_def
      bool_store_def gap_store_def mat_dot_def has_label_def label_values_def np_unique_def
      one_hot_rows_def py_wrap_index_def numeral_3_eq_3 numeral_2_eq_2)

text \<open>
  Claim C10. With \<^verbatim>\<open>exclude_self = True\<close> the call writes into the caller's adjacency
  matrix: afterwards the array at the adjacency's address has its diagonal at 0 and every
  other entry as before, so it differs from the old one as soon as a diagonal entry was
  not 0. No other array of the store changes, nor the number type of any array; the
  label array, being another array, is as before.
\<close>

theorem neighbourhood_count_frame:
  assumes "is_matrix (mats st adjacency) n n" and "zero_one (mats st adjacency)"
    and "label_ok st label n m" and "separate adjacency label"
  shows "\<exists>nb_count st'.
           get_neighbourhood_count st adjacency label True = Inr (nb_count, st') \<and>
           is_matrix (mats st' adjacency) n n \<and>
           (\<forall>i < n. \<forall>j < n. mats st' adjacency ! i ! j =
                               (if i = j then 0 else mats st adjacency ! i ! j)) \<and>
           ((\<exists>i < n. mats st adjacency ! i ! i \<noteq> 0) \<longrightarrow> mats st' adjacency \<noteq> mats st adjacency) \<and>
           (\<forall>b. b \<noteq> adjacency \<longrightarrow> mats st' b = mats st b) \<and>
           vecs st' = vecs st \<and>
           label_array st' label = label_array st label \<and>
           mat_dtype st' = mat_dtype st"
proof -
  define st' where "st' = st\<lparr>mats := (mats st)(adjacency := zero_diagonal (mats st adjacency))\<rparr>"
  have e: "st' = (if True then st\<lparr>mats := (mats st)(adjacency := zero_diagonal (mats st adjacency))\<rparr>
                  else st)"
    by (simp add: st'_def)
  from neighbourhood_count_core [OF assms e] obtain nb_count where
    g: "get_neighbourhood_count st adjacency label True = Inr (nb_count, st')"
    by blast
  have m: "mats st' adjacency = zero_diagonal (mats st adjacency)" by (simp add: st'_def)
  have c1: "is_matrix (mats st' adjacency) n n"
    using zero_diagonal_matrix [OF assms(1)] m by simp
  have c2: "\<forall>i < n. \<forall>j < n. mats st' adjacency ! i ! j =
                               (if i = j then 0 else mats st adjacency ! i ! j)"
    using zero_diagonal_entry [OF assms(1)] m by auto
  have c3: "(\<exists>i < n. mats st adjacency ! i ! i \<noteq> 0) \<longrightarrow> mats st' adjacency \<noteq> mats st adjacency"
  proof
    assume "\<exists>i < n. mats st adjacency ! i ! i \<noteq> 0"
    then obtain i where i: "i < n" "mats st adjacency ! i ! i \<noteq> 0" by blast
    have "mats st' adjacency ! i ! i = 0" using c2 i by simp
    then show "mats st' adjacency \<noteq> mats st adjacency" using i by auto
  qed
  have c4: "\<forall>b. b \<noteq> adjacency \<longrightarrow> mats st' b = mats st b" by (simp add: st'_def)
  have c5: "vecs st' = vecs st" by (simp add: st'_def)
  have c6: "label_array st' label = label_array st label"
    using assms(4) c4 c5 by (cases label) (simp_all add: label_array_def separate_def)
  have c7: "mat_dtype st' = mat_dtype st" by (simp add: st'_def)
  show ?thesis
    by (intro exI [of _ nb_count] exI [of _ st'] conjI g c1 c2 c3 c4 c5 c6 c7)
qed

theorem neighbourhood_count_frame_witness:
  "is_matrix (mats demo_store 0) 3 3 \<and> zero_one (mats demo_store 0) \<and>
   label_ok demo_store (One_hot 1) 3 2 \<and> separate 0 (One_hot 1) \<and>
   (\<exists>nb_count st'. get_neighbourhood_count demo_store 0 (One_hot 1) True = Inr (nb_count, st') \<and>
      mats st' 0 \<noteq> mats demo_store 0 \<and> mats st' 1 = mats demo_store 1)"
proof -
  have d: "\<exists>i < 3. mats demo_store 0 ! i ! i \<noteq> 0"
    by (rule exI [of _ 0]) (simp add: demo_store_def)
  from neighbourhood_count_frame [OF demo_store_ok]
  have "\<exists>nb_count st'. get_neighbourhood_count demo_store 0 (One_hot 1) True = Inr (nb_count, st') \<and>
      mats st' 0 \<noteq> mats demo_store 0 \<and> mats st' 1 = mats demo_store 1"
    apply (elim exE conjE)
    apply (intro exI conjI)
      apply assumption
     apply (use d in blast)
    apply simp
    done
  then show ?thesis using demo_store_ok by blast
qed

text \<open>
  The same call with the adjacency matrix passed as its own one-hot label: the label
  array is the adjacency array, and it is written.
\<close>

lemma neighbourhood_count_aliased:
  "\<exists>nb_count st'. get_neighbourhood_count demo_store 0 (One_hot 0) True = Inr (nb_count, st') \<and>
     label_array st' (One_hot 0) \<noteq> label_array demo_store (One_hot 0)"
  by (simp add: get_neighbourhood_count_def Let_def label_rows_def demo_store_def
      zero_diagonal_def mat_dot_def label_array_def numeral_3_eq_3 numeral_2_eq_2)

section \<open>Claim on the standardisation before PCA\<close>

lemma n_cols_rect: "X \<noteq> [] \<Longrightarrow> rectangular X d \<Longrightarrow> n_cols X = d"
  by (cases X) (auto simp: n_cols_def rectangular_def)

lemma np_std_nonneg: "s \<in> set (np_std X) \<Longrightarrow> 0 \<le> s"
  by (auto simp: np_std_def Let_def intro!: real_sqrt_ge_zero divide_nonneg_nonneg sum_list_nonneg)

lemma pseudo_std_pos: "s \<in> set (pseudo_std X) \<Longrightarrow> 0 < s"
proof -
  assume "s \<in> set (pseudo_std X)"
  then obtain t where t: "t \<in> set (np_std (centred X))" and s: "s = (if t = 0 then t + 1 / 10 ^ 9 else t)"
    by (auto simp: pseudo_std_def)
  have "0 \<le> t" using t by (rule np_std_nonneg)
  then show "0 < s" using s by (cases "t = 0") auto
qed

lemma centred_shape:
  assumes "X \<noteq> []" "rectangular X d"
  shows "centred X \<noteq> []" "rectangular (centred X) d" "length (centred X) = length X"
  using assms n_cols_rect [OF assms]
  by (auto simp: centred_def sub_rows_def np_mean_def rectangular_def)

lemma pseudo_std_length:
  assumes "X \<noteq> []" "rectangular X d"
  shows "length (pseudo_std X) = d"
  using n_cols_rect [OF centred_shape(1,2) [OF assms]]
  by (simp add: pseudo_std_def np_std_def)

lemma standardize_shape:
  assumes "X \<noteq> []" "rectangular X d"
  shows "standardize X \<noteq> []" "rectangular (standardize X) d" "length (standardize X) = length X"
  using centred_shape [OF assms] pseudo_std_length [OF assms]
  by (auto simp: standardize_def div_rows_def rectangular_def)

lemma sum_list_shift_scale:
  "sum_list (map (\<lambda>x. (f x - a) / b) xs) = (sum_list (map f xs) - real (length xs) * a) / (b::real)"
  by (induction xs) (simp_all add: diff_divide_distrib add_divide_distrib algebra_simps)

lemma column_standardize:
  assumes "X \<noteq> []" "rectangular X d" "c < d"
  shows "column (standardize X) c =
           map (\<lambda>row. (row ! c - np_mean X ! c) / pseudo_std X ! c) X"
proof -
  have lm: "length (np_mean X) = d" using n_cols_rect [OF assms(1,2)] by (simp add: np_mean_def)
  have ls: "length (pseudo_std X) = d" using pseudo_std_length [OF assms(1,2)] .
  have "\<And>row. row \<in> set X \<Longrightarrow>
          map (\<lambda>(a, b). a / b) (zip (map (\<lambda>(a, b). a - b) (zip row (np_mean X))) (pseudo_std X)) ! c
          = (row ! c - np_mean X ! c) / pseudo_std X ! c"
  proof -
    fix row assume "row \<in> set X"
    then have "length row = d" using assms(2) by (simp add: rectangular_def)
    then show "map (\<lambda>(a, b). a / b) (zip (map (\<lambda>(a, b). a - b) (zip row (np_mean X))) (pseudo_std X)) ! c
          = (row ! c - np_mean X ! c) / pseudo_std X ! c"
      using lm ls assms(3) by simp
  qed
  then show ?thesis
    by (simp add: column_def standardize_def div_rows_def centred_def sub_rows_def)
qed

lemma np_mean_standardize:
  assumes "X \<noteq> []" "rectangular X d"
  shows "np_mean (standardize X) = replicate d 0"
proof (rule nth_equalityI)
  have nc: "n_cols (standardize X) = d"
    using n_cols_rect [OF standardize_shape(1,2) [OF assms]] .
  show "length (np_mean (standardize X)) = length (replicate d (0::real))"
    using nc by (simp add: np_mean_def)
  fix c assume "c < length (np_mean (standardize X))"
  then have c: "c < d" using nc by (simp add: np_mean_def)
  have n0: "real (length X) \<noteq> 0" using assms(1) by simp
  have mu: "np_mean X ! c = sum_list (map (\<lambda>row. row ! c) X) / real (length X)"
    using c n_cols_rect [OF assms] by (simp add: np_mean_def column_def)
  have "sum_list (column (standardize X) c) =
        (sum_list (map (\<lambda>row. row ! c) X) - real (length X) * (np_mean X ! c)) / pseudo_std X ! c"
    unfolding column_standardize [OF assms c] by (rule sum_list_shift_scale)
  also have "\<dots> = 0" using n0 by (simp add: mu)
  finally have z: "sum_list (column (standardize X) c) = 0" .
  show "np_mean (standardize X) ! c = replicate d 0 ! c"
    using c nc z by (simp add: np_mean_def)
qed

lemma column_sum: "sum_list (column X c) = (\<Sum>j < length X. X ! j ! c)"
  by (simp add: column_def sum_list_sum_nth atLeast0LessThan)

lemma np_mean_direct:
  assumes "X \<noteq> []" "rectangular X d" "c < d"
  shows "np_mean X ! c = (\<Sum>j < length X. X ! j ! c) / real (length X)"
  using assms(3) n_cols_rect [OF assms(1,2)] by (simp add: np_mean_def column_sum)

lemma centred_entry:
  assumes "X \<noteq> []" "rectangular X d" "c < d" "j < length X"
  shows "centred X ! j ! c = X ! j ! c - (\<Sum>i < length X. X ! i ! c) / real (length X)"
proof -
  have lm: "length (np_mean X) = d" using n_cols_rect [OF assms(1,2)] by (simp add: np_mean_def)
  have lr: "length (X ! j) = d" using assms(2,4) by (simp add: rectangular_def)
  have "centred X ! j ! c = X ! j ! c - np_mean X ! c"
    using assms(3,4) lm lr by (simp add: centred_def sub_rows_def)
  then show ?thesis using np_mean_direct [OF assms(1,2,3)] by simp
qed

lemma centred_column_sum:
  assumes "X \<noteq> []" "rectangular X d" "c < d"
  shows "sum_list (column (centred X) c) = 0"
proof -
  have n0: "real (length X) \<noteq> 0" using assms(1) by simp
  have "sum_list (column (centred X) c) = (\<Sum>j < length (centred X). centred X ! j ! c)"
    by (rule column_sum)
  also have "\<dots> = (\<Sum>j < length X. X ! j ! c - (\<Sum>i < length X. X ! i ! c) / real (length X))"
    using centred_shape(3) [OF assms(1,2)] centred_entry [OF assms] by simp
  also have "\<dots> = 0" using n0 by (simp add: sum_subtractf)
  finally show ?thesis .
qed

lemma np_std_centred_direct:
  assumes "X \<noteq> []" "rectangular X d" "c < d"
  shows "np_std (centred X) ! c =
           sqrt ((\<Sum>j < length X.
                    (X ! j ! c - (\<Sum>i < length X. X ! i ! c) / real (length X)) ^ 2)
                 / real (length X))"
proof -
  have nc: "n_cols (centred X) = d" using n_cols_rect [OF centred_shape(1,2) [OF assms(1,2)]] .
  have lc: "length (centred X) = length X" using centred_shape(3) [OF assms(1,2)] .
  have z: "sum_list (column (centred X) c) = 0" using centred_column_sum [OF assms] .
  have "sum_list (map (\<lambda>v. \<bar>v - 0\<bar> ^ 2) (column (centred X) c)) =
        (\<Sum>j < length X. (centred X ! j ! c) ^ 2)"
    using lc by (simp add: column_def sum_list_sum_nth atLeast0LessThan)
  also have "\<dots> = (\<Sum>j < length X.
                    (X ! j ! c - (\<Sum>i < length X. X ! i ! c) / real (length X)) ^ 2)"
    using centred_entry [OF assms] by simp
  finally have s: "sum_list (map (\<lambda>v. \<bar>v - 0\<bar> ^ 2) (column (centred X) c)) =
        (\<Sum>j < length X. (X ! j ! c - (\<Sum>i < length X. X ! i ! c) / real (length X)) ^ 2)" .
  show ?thesis
    using assms(3) nc by (simp add: np_std_def Let_def z lc s [simplified])
qed

text \<open>
  Claim C9. For a matrix with at least one row, constant columns included: the divisor
  of column \<open>c\<close> in \<^verbatim>\<open>X/std\<close> is the column's standard deviation, or \<open>1e-9\<close> when that is
  zero, and it is positive, so no entry is divided by zero. The matrix handed to the PCA has
  the shape of \<open>X\<close>; its entry \<open>(j, c)\<close> is \<open>X[j,c]\<close> minus the mean of column \<open>c\<close>,
  divided by that divisor; the entries of each of its columns add up to zero, so each
  column has mean zero.
\<close>

theorem pca_standardize_safe:
  assumes "X \<noteq> []" "rectangular X d"
  shows "length (pseudo_std X) = d \<and>
         (\<forall>c < d. 0 < pseudo_std X ! c \<and>
                   pseudo_std X ! c = (if col_std X c = 0 then 1 / 10 ^ 9 else col_std X c) \<and>
                   (np_std (centred X) ! c = 0 \<longrightarrow> pseudo_std X ! c = 1 / 10 ^ 9) \<and>
                   (np_std (centred X) ! c \<noteq> 0 \<longrightarrow> pseudo_std X ! c = np_std (centred X) ! c)) \<and>
         length (standardize X) = length X \<and> rectangular (standardize X) d \<and>
         (\<forall>j < length X. \<forall>c < d.
            standardize X ! j ! c = (X ! j ! c - col_mean X c) / pseudo_std X ! c \<and>
            standardize X ! j ! c = (X ! j ! c - np_mean X ! c) / pseudo_std X ! c) \<and>
         (\<forall>c < d. (\<Sum>j < length X. standardize X ! j ! c) = 0 \<and>
                   col_mean (standardize X) c = 0) \<and>
         np_mean (standardize X) = replicate d 0 \<and>
         pca_reduce pca_fit pca_transform X dims pca =
           (pca_transform (case pca of None \<Rightarrow> pca_fit dims (standardize X) | Some q \<Rightarrow> q)
              (standardize X),
            case pca of None \<Rightarrow> pca_fit dims (standardize X) | Some q \<Rightarrow> q)"
proof -
  have l: "length (pseudo_std X) = d" using pseudo_std_length [OF assms] .
  have ls: "length (np_std (centred X)) = d" using l by (simp add: pseudo_std_def)
  have lx: "length (standardize X) = length X" using standardize_shape(3) [OF assms] .
  have p: "\<forall>c < d. 0 < pseudo_std X ! c \<and>
                   pseudo_std X ! c = (if col_std X c = 0 then 1 / 10 ^ 9 else col_std X c) \<and>
                   (np_std (centred X) ! c = 0 \<longrightarrow> pseudo_std X ! c = 1 / 10 ^ 9) \<and>
                   (np_std (centred X) ! c \<noteq> 0 \<longrightarrow> pseudo_std X ! c = np_std (centred X) ! c)"
  proof (intro allI impI)
    fix c assume c: "c < d"
    then have "pseudo_std X ! c \<in> set (pseudo_std X)" using l by simp
    then have pos: "0 < pseudo_std X ! c" by (rule pseudo_std_pos)
    have ps: "pseudo_std X ! c =
           (if np_std (centred X) ! c = 0 then np_std (centred X) ! c + 1 / 10 ^ 9
            else np_std (centred X) ! c)"
      using c ls by (simp add: pseudo_std_def)
    have sd: "np_std (centred X) ! c = col_std X c"
      using np_std_centred_direct [OF assms c] by (simp add: col_std_def col_mean_def)
    show "0 < pseudo_std X ! c \<and>
                   pseudo_std X ! c = (if col_std X c = 0 then 1 / 10 ^ 9 else col_std X c) \<and>
                   (np_std (centred X) ! c = 0 \<longrightarrow> pseudo_std X ! c = 1 / 10 ^ 9) \<and>
                   (np_std (centred X) ! c \<noteq> 0 \<longrightarrow> pseudo_std X ! c = np_std (centred X) ! c)"
      using pos ps sd by simp
  qed
  have e: "\<forall>j < length X. \<forall>c < d.
            standardize X ! j ! c = (X ! j ! c - col_mean X c) / pseudo_std X ! c \<and>
            standardize X ! j ! c = (X ! j ! c - np_mean X ! c) / pseudo_std X ! c"
  proof (intro allI impI)
    fix j c assume j: "j < length X" and c: "c < d"
    have "column (standardize X) c ! j = (X ! j ! c - np_mean X ! c) / pseudo_std X ! c"
      unfolding column_standardize [OF assms c] using j by simp
    then have a: "standardize X ! j ! c = (X ! j ! c - np_mean X ! c) / pseudo_std X ! c"
      using j lx by (simp add: column_def)
    have "np_mean X ! c = col_mean X c"
      using np_mean_direct [OF assms c] by (simp add: col_mean_def)
    then show "standardize X ! j ! c = (X ! j ! c - col_mean X c) / pseudo_std X ! c \<and>
            standardize X ! j ! c = (X ! j ! c - np_mean X ! c) / pseudo_std X ! c"
      using a by simp
  qed
  have z: "\<forall>c < d. (\<Sum>j < length X. standardize X ! j ! c) = 0 \<and>
                   col_mean (standardize X) c = 0"
  proof (intro allI impI)
    fix c assume c: "c < d"
    have nc: "n_cols (standardize X) = d"
      using n_cols_rect [OF standardize_shape(1,2) [OF assms]] .
    have "np_mean (standardize X) ! c = replicate d 0 ! c"
      using np_mean_standardize [OF assms] by simp
    then have "sum_list (column (standardize X) c) / real (length X) = 0"
      using c nc lx by (simp add: np_mean_def)
    then have "sum_list (column (standardize X) c) = 0" using assms(1) by simp
    then have s: "(\<Sum>j < length X. standardize X ! j ! c) = 0"
      using column_sum [of "standardize X" c] lx by simp
    then show "(\<Sum>j < length X. standardize X ! j ! c) = 0 \<and> col_mean (standardize X) c = 0"
      using lx by (simp add: col_mean_def)
  qed
  have r: "pca_reduce pca_fit pca_transform X dims pca =
           (pca_transform (case pca of None \<Rightarrow> pca_fit dims (standardize X) | Some q \<Rightarrow> q)
              (standardize X),
            case pca of None \<Rightarrow> pca_fit dims (standardize X) | Some q \<Rightarrow> q)"
    by (simp add: pca_reduce_def Let_def)
  show ?thesis
    by (intro conjI l p lx standardize_shape(2) [OF assms] e z
        np_mean_standardize [OF assms] r)
qed

lemma demo_col_std:
  "col_std [[1, 5], [3, 5]] 0 = 1" "col_std [[1, 5], [3, 5]] (Suc 0) = 0"
  "col_mean [[1, 5], [3, 5]] 0 = 2"
  by (simp_all add: col_std_def col_mean_def numeral_2_eq_2)

theorem pca_standardize_safe_witness:
  "[[1, 5], [3, 5 :: real]] \<noteq> [] \<and> rectangular [[1, 5], [3, 5]] 2 \<and>
   pseudo_std [[1, 5], [3, 5]] ! 0 = 1 \<and> pseudo_std [[1, 5], [3, 5]] ! 1 = 1 / 10 ^ 9 \<and>
   standardize [[1, 5], [3, 5]] ! 0 ! 0 = - 1 \<and> standardize [[1, 5], [3, 5]] ! 1 ! 0 = 1 \<and>
   (\<Sum>j < 2. standardize [[1, 5], [3, 5]] ! j ! 0) = 0"
proof -
  have h1: "[[1, 5], [3, 5 :: real]] \<noteq> []" by simp
  have h2: "rectangular [[1, 5], [3, 5]] 2" by (simp add: rectangular_def)
  note T = pca_standardize_safe [OF h1 h2, of "\<lambda>k Y. ()" "\<lambda>q Y. Y" 0 None]
  note P = T [THEN conjunct2, THEN conjunct1, rule_format]
  note E = T [THEN conjunct2, THEN conjunct2, THEN conjunct2, THEN conjunct2, THEN conjunct1,
    rule_format]
  note Z = T [THEN conjunct2, THEN conjunct2, THEN conjunct2, THEN conjunct2, THEN conjunct2,
    THEN conjunct1, rule_format]
  have a: "pseudo_std [[1, 5], [3, 5]] ! 0 = 1" using P [of 0] by (simp add: demo_col_std)
  have b: "pseudo_std [[1, 5], [3, 5]] ! 1 = 1 / 10 ^ 9" using P [of 1] by (simp add: demo_col_std)
  have c: "standardize [[1, 5], [3, 5]] ! 0 ! 0 = - 1"
    using E [of 0 0] by (simp add: demo_col_std a)
  have d: "standardize [[1, 5], [3, 5]] ! 1 ! 0 = 1"
    using E [of 1 0] by (simp add: demo_col_std a)
  have e: "(\<Sum>j < 2. standardize [[1, 5], [3, 5]] ! j ! 0) = 0"
    using Z [of 0] by (simp add: numeral_2_eq_2)
  show ?thesis by (intro conjI h1 h2 a b c d e)
qed

end
